theory Spec2Isabelle
  imports Main
begin

section \<open>JavaScript values and the object store\<close>

text \<open>
  The module \<^verbatim>\<open>src/swaggerSpec.js\<close> works on a parsed Swagger document: a graph of
  JavaScript objects and arrays that it reads, shares and mutates in place.
  A value is a primitive, a built-in function or a pointer into a store of cells;
  identity of objects is equality of addresses.

  Conventions of the model:
  \<^item> a number is only ever tested for truthiness or rendered as a string. \<open>Num n\<close> is
    the integer \<open>n\<close>, of magnitude up to \<open>2^53\<close> (every such integer is a number of
    the language; both zeros are \<open>Num 0\<close>); \<^verbatim>\<open>NaN\<close> is apart; any other number (a
    fraction, a larger magnitude, an infinity) is \<open>Double s\<close>, named by the string
    \<open>s\<close> the engine renders it as, so that two of them are equal exactly when they
    render alike;
  \<^item> an object cell lists its own enumerable properties in the order in which
    JavaScript enumerates them (array-index keys ascending, then the other keys in
    insertion order); an array cell lists its elements and has no holes and no
    named properties;
  \<^item> every object of the store has the prototype it was created with,
    \<^verbatim>\<open>Object.prototype\<close> or \<^verbatim>\<open>Array.prototype\<close>, and these two are as the
    language defines them. Where the program would give an object another prototype
    (a write to \<^verbatim>\<open>__proto__\<close> that reaches the accessor of \<^verbatim>\<open>Object.prototype\<close>)
    the model stops with \<open>Unsupported\<close>;
  \<^item> \<open>Builtin r k\<close> is the function a value of kind \<open>r\<close> inherits from
    \<^verbatim>\<open>Object.prototype\<close> under the name \<open>k\<close>, such as \<^verbatim>\<open>({}).constructor\<close>; the
    module never compares two functions, so a function is named by the read that
    yields it;
  \<^item> strings are lists of characters, one character per string unit.
\<close>

type_synonym addr = nat

datatype receiver = ObjectR | ArrayR | StringR | NumberR | BooleanR

datatype jsval =
    Undefined
  | Null
  | Bool bool
  | Num int
  | Double string
  | NaN
  | Str string
  | Ptr addr
  | Builtin receiver string

type_synonym 'v props = "(string \<times> 'v) list"

datatype cell =
    Obj "jsval props"
  | Arr "jsval list"

type_synonym heap = "cell list"

text \<open>
  The two assertion failures of \<^verbatim>\<open>resolveRef\<close> are told apart by their message;
  \<^verbatim>\<open>TypeError\<close> is what the engine raises on a property read of
  \<^verbatim>\<open>null\<close>/\<^verbatim>\<open>undefined\<close>, on a call of something that is no function and (the
  file is in strict mode) on a property write to a primitive. \<open>Unsupported\<close> is no
  error of the program: it marks the steps this model does not follow, and a run
  that ends with it says nothing about the program. These steps are: a write that
  would run the setter of \<^verbatim>\<open>__proto__\<close>; a read of the inherited \<^verbatim>\<open>__proto__\<close>; a
  read of a member that only some engines define on arrays, strings, numbers or
  booleans; a read from, or a call of, a built-in function; the rendering of an
  object, an array or a function as a string; a named property written to an array.
\<close>

datatype error =
    InvalidReferenceFormat
  | InvalidReference
  | TypeError
  | Unsupported

definition bindE :: "error + 'a \<Rightarrow> ('a \<Rightarrow> error + 'b) \<Rightarrow> error + 'b" where
  "bindE m f = (case m of Inl e \<Rightarrow> Inl e | Inr x \<Rightarrow> f x)"

definition cell_at :: "heap \<Rightarrow> addr \<Rightarrow> cell option" where
  "cell_at h a = (if a < length h then Some (h ! a) else None)"

text \<open>JavaScript truthiness: what \<^verbatim>\<open>!v\<close>, \<^verbatim>\<open>v ? _ : _\<close> and \<^verbatim>\<open>assert.ok(v)\<close> test.\<close>

fun truthy :: "jsval \<Rightarrow> bool" where
  "truthy Undefined = False"
| "truthy Null = False"
| "truthy (Bool b) = b"
| "truthy (Num n) = (n \<noteq> 0)"
| "truthy (Double s) = True"
| "truthy NaN = False"
| "truthy (Str s) = (s \<noteq> [])"
| "truthy (Ptr a) = True"
| "truthy (Builtin r k) = True"

subsection \<open>Decimal keys\<close>

definition digit_char :: "nat \<Rightarrow> char" where
  "digit_char d = ''0123456789'' ! d"

fun dec :: "nat \<Rightarrow> string" where
  "dec n = (if n < 10 then [digit_char n] else dec (n div 10) @ [digit_char (n mod 10)])"

declare dec.simps [simp del]

definition digit_val :: "char \<Rightarrow> nat option" where
  "digit_val c =
     map_of [(CHR ''0'', 0), (CHR ''1'', 1), (CHR ''2'', 2), (CHR ''3'', 3), (CHR ''4'', 4),
             (CHR ''5'', 5), (CHR ''6'', 6), (CHR ''7'', 7), (CHR ''8'', 8), (CHR ''9'', 9)] c"

definition digits_val :: "string \<Rightarrow> int" where
  "digits_val s =
     foldl (\<lambda>n c. 10 * n + (case digit_val c of Some d \<Rightarrow> int d | None \<Rightarrow> 0)) 0 s"

text \<open>
  An array index is a key that is the canonical decimal rendering of an integer below
  \<open>2^32 - 1\<close>: digits only, no leading zero.
\<close>

definition parse_index :: "string \<Rightarrow> nat option" where
  "parse_index s =
     (if s \<noteq> [] \<and> list_all (\<lambda>c. digit_val c \<noteq> None) s
         \<and> (hd s \<noteq> CHR ''0'' \<or> length s = 1) \<and> digits_val s < 4294967295
      then Some (nat (digits_val s)) else None)"

subsection \<open>Property lists\<close>

fun replace_prop :: "string \<Rightarrow> 'v \<Rightarrow> 'v props \<Rightarrow> 'v props" where
  "replace_prop k v [] = []"
| "replace_prop k v ((k', v') # ps) =
     (if k' = k then (k, v) # ps else (k', v') # replace_prop k v ps)"

fun insert_index :: "nat \<Rightarrow> string \<Rightarrow> 'v \<Rightarrow> 'v props \<Rightarrow> 'v props" where
  "insert_index i k v [] = [(k, v)]"
| "insert_index i k v ((k', v') # ps) =
     (case parse_index k' of
        Some j \<Rightarrow> if j < i then (k', v') # insert_index i k v ps else (k, v) # (k', v') # ps
      | None \<Rightarrow> (k, v) # (k', v') # ps)"

text \<open>
  What \<^verbatim>\<open>o[k] = v\<close> does to the own properties of \<open>o\<close> when no setter takes the
  write: an existing property keeps its place; a new array-index key goes among the
  index keys in ascending order, any other new key goes last.
\<close>

definition set_prop :: "'v props \<Rightarrow> string \<Rightarrow> 'v \<Rightarrow> 'v props" where
  "set_prop ps k v =
     (case map_of ps k of
        Some _ \<Rightarrow> replace_prop k v ps
      | None \<Rightarrow> (case parse_index k of
                   Some i \<Rightarrow> insert_index i k v ps
                 | None \<Rightarrow> ps @ [(k, v)]))"

text \<open>
  The one setter an object of this program can inherit is the accessor
  \<^verbatim>\<open>__proto__\<close> of \<^verbatim>\<open>Object.prototype\<close>. A write \<^verbatim>\<open>o[k] = v\<close> reaches it when
  \<open>k\<close> is \<^verbatim>\<open>__proto__\<close> and \<open>o\<close> has no own property of that name (a parsed document
  can have one); the write then adds no property and may change the prototype of
  \<open>o\<close>.
\<close>

definition setter_runs :: "'v props \<Rightarrow> string \<Rightarrow> bool" where
  "setter_runs ps k \<longleftrightarrow> k = ''__proto__'' \<and> map_of ps k = None"

text \<open>
  \<^verbatim>\<open>o[k] = v\<close> for an object \<open>o\<close> with the own properties \<open>ps\<close> whose prototype is
  \<^verbatim>\<open>Object.prototype\<close>.
\<close>

definition put :: "'v props \<Rightarrow> string \<Rightarrow> 'v \<Rightarrow> error + 'v props" where
  "put ps k v = (if setter_runs ps k then Inl Unsupported else Inr (set_prop ps k v))"

text \<open>\<^verbatim>\<open>delete o[k]\<close>.\<close>

definition delete_prop :: "string \<Rightarrow> 'v props \<Rightarrow> 'v props" where
  "delete_prop k ps = filter (\<lambda>kv. fst kv \<noteq> k) ps"

text \<open>
  Writing a list of properties to a target one by one, as the \<^verbatim>\<open>reduce\<close> calls
  of the module do on a new object.
\<close>

fun assign :: "'v props \<Rightarrow> 'v props \<Rightarrow> error + 'v props" where
  "assign target [] = Inr target"
| "assign target (kv # src) = bindE (put target (fst kv) (snd kv)) (\<lambda>t. assign t src)"

text \<open>The properties such a sequence of writes leaves when no setter takes one of them.\<close>

definition define_props :: "'v props \<Rightarrow> 'v props \<Rightarrow> 'v props" where
  "define_props target src = foldl (\<lambda>t kv. set_prop t (fst kv) (snd kv)) target src"

subsection \<open>Reading values\<close>

definition obj_props :: "heap \<Rightarrow> addr \<Rightarrow> jsval props" where
  "obj_props h a = (case cell_at h a of Some (Obj ps) \<Rightarrow> ps | _ \<Rightarrow> [])"

definition index_entries :: "'v list \<Rightarrow> 'v props" where
  "index_entries xs = zip (map dec [0 ..< length xs]) xs"

text \<open>
  The own enumerable properties of a value, as \<^verbatim>\<open>Object.keys\<close>, \<^verbatim>\<open>for .. in\<close>
  and \<^verbatim>\<open>Object.assign\<close> (for a source) see them. \<^verbatim>\<open>null\<close> and \<^verbatim>\<open>undefined\<close>
  have none here; where the program would raise on them, the caller checks first.
  The own properties of a built-in function are not enumerable. A pointer outside
  the store does not occur in a running program; it is treated as an object without
  properties.
\<close>

fun own_entries :: "heap \<Rightarrow> jsval \<Rightarrow> jsval props" where
  "own_entries h (Str s) = index_entries (map (\<lambda>c. Str [c]) s)"
| "own_entries h (Ptr a) =
     (case cell_at h a of
        Some (Obj ps) \<Rightarrow> ps
      | Some (Arr xs) \<Rightarrow> index_entries xs
      | None \<Rightarrow> [])"
| "own_entries h v = []"

text \<open>The own properties of an array or a string with the elements \<open>xs\<close>.\<close>

definition own_indexed :: "jsval list \<Rightarrow> string \<Rightarrow> jsval option" where
  "own_indexed xs k =
     (if k = ''length'' then Some (Num (int (length xs)))
      else case parse_index k of
             Some i \<Rightarrow> if i < length xs then Some (xs ! i) else None
           | None \<Rightarrow> None)"

text \<open>The own property \<open>k\<close> of a value, enumerable or not.\<close>

fun own_prop :: "heap \<Rightarrow> jsval \<Rightarrow> string \<Rightarrow> jsval option" where
  "own_prop h (Str s) k = own_indexed (map (\<lambda>c. Str [c]) s) k"
| "own_prop h (Ptr a) k =
     (case cell_at h a of
        Some (Obj ps) \<Rightarrow> map_of ps k
      | Some (Arr xs) \<Rightarrow> own_indexed xs k
      | None \<Rightarrow> None)"
| "own_prop h v k = None"

text \<open>
  The prototype chain a property read goes up when the value has no own property
  of the name: that of an object, an array, or the wrapper of a primitive.
  \<^verbatim>\<open>null\<close> and \<^verbatim>\<open>undefined\<close> have none, and the chain of a built-in function is
  not modelled.
\<close>

fun kind_of :: "heap \<Rightarrow> jsval \<Rightarrow> receiver option" where
  "kind_of h Undefined = None"
| "kind_of h Null = None"
| "kind_of h (Bool b) = Some BooleanR"
| "kind_of h (Num n) = Some NumberR"
| "kind_of h (Double s) = Some NumberR"
| "kind_of h NaN = Some NumberR"
| "kind_of h (Str s) = Some StringR"
| "kind_of h (Ptr a) = (case cell_at h a of Some (Arr xs) \<Rightarrow> Some ArrayR | _ \<Rightarrow> Some ObjectR)"
| "kind_of h (Builtin r k) = None"

text \<open>
  The string-keyed properties of \<^verbatim>\<open>Object.prototype\<close>, which every chain ends in.
  All are functions but \<^verbatim>\<open>__proto__\<close>, an accessor that answers the prototype of
  the receiver.
\<close>

definition objectPrototype :: "string list" where
  "objectPrototype =
     [''constructor'', ''__defineGetter__'', ''__defineSetter__'', ''hasOwnProperty'',
      ''__lookupGetter__'', ''__lookupSetter__'', ''isPrototypeOf'', ''propertyIsEnumerable'',
      ''toString'', ''valueOf'', ''__proto__'', ''toLocaleString'']"

text \<open>
  The further names that \<^verbatim>\<open>Array.prototype\<close>, \<^verbatim>\<open>String.prototype\<close> and
  \<^verbatim>\<open>Number.prototype\<close> define in some edition of the language or some engine.
  Which of them a given engine has depends on its age, so a read of one of them
  is not modelled.
\<close>

fun exotic :: "receiver \<Rightarrow> string list" where
  "exotic ObjectR = []"
| "exotic ArrayR =
     [''at'', ''concat'', ''copyWithin'', ''entries'', ''every'', ''fill'', ''filter'', ''find'',
      ''findIndex'', ''findLast'', ''findLastIndex'', ''flat'', ''flatMap'', ''flatten'',
      ''forEach'', ''group'', ''groupBy'', ''groupToMap'', ''includes'', ''indexOf'', ''join'',
      ''keys'', ''lastIndexOf'', ''lastItem'', ''lastIndex'', ''map'', ''pop'', ''push'',
      ''reduce'', ''reduceRight'', ''reverse'', ''shift'', ''slice'', ''some'', ''sort'',
      ''splice'', ''toReversed'', ''toSorted'', ''toSpliced'', ''toSource'', ''unshift'',
      ''values'', ''with'']"
| "exotic StringR =
     [''anchor'', ''at'', ''big'', ''blink'', ''bold'', ''charAt'', ''charCodeAt'',
      ''codePointAt'', ''concat'', ''contains'', ''endsWith'', ''fixed'', ''fontcolor'',
      ''fontsize'', ''includes'', ''indexOf'', ''isWellFormed'', ''italics'', ''lastIndexOf'',
      ''link'', ''localeCompare'', ''match'', ''matchAll'', ''normalize'', ''padEnd'',
      ''padStart'', ''quote'', ''repeat'', ''replace'', ''replaceAll'', ''search'', ''slice'',
      ''small'', ''split'', ''startsWith'', ''strike'', ''sub'', ''substr'', ''substring'',
      ''sup'', ''toLocaleLowerCase'', ''toLocaleUpperCase'', ''toLowerCase'', ''toSource'',
      ''toUpperCase'', ''toWellFormed'', ''trim'', ''trimEnd'', ''trimLeft'', ''trimRight'',
      ''trimStart'']"
| "exotic NumberR = [''toExponential'', ''toFixed'', ''toPrecision'', ''toSource'']"
| "exotic BooleanR = [''toSource'']"

text \<open>
  The read of \<open>k\<close> that goes up the chain of a value of kind \<open>r\<close>: a function of
  \<^verbatim>\<open>Object.prototype\<close> (or the function of the same name that overrides it on
  the way, as \<^verbatim>\<open>toString\<close> of an array), or nothing.
\<close>

definition inherited :: "receiver \<Rightarrow> string \<Rightarrow> error + jsval" where
  "inherited r k =
     (if k = ''__proto__'' then Inl Unsupported
      else if k \<in> set objectPrototype then Inr (Builtin r k)
      else if k \<in> set (exotic r) then Inl Unsupported
      else Inr Undefined)"

text \<open>\<^verbatim>\<open>v[k]\<close> for a string key \<^verbatim>\<open>k\<close>.\<close>

definition getProp :: "heap \<Rightarrow> jsval \<Rightarrow> string \<Rightarrow> error + jsval" where
  "getProp h v k =
     (if v = Undefined \<or> v = Null then Inl TypeError
      else case own_prop h v k of
             Some x \<Rightarrow> Inr x
           | None \<Rightarrow> (case kind_of h v of
                        Some r \<Rightarrow> inherited r k
                      | None \<Rightarrow> Inl Unsupported))"

text \<open>
  The same read where it cannot raise, or where an absent value stands for the
  failure.
\<close>

definition lookup :: "heap \<Rightarrow> jsval \<Rightarrow> string \<Rightarrow> jsval" where
  "lookup h v k = (case getProp h v k of Inr x \<Rightarrow> x | Inl e \<Rightarrow> Undefined)"

text \<open>
  The reads the model follows: of an own property, of a function of
  \<^verbatim>\<open>Object.prototype\<close>, and of a name that no prototype of the value defines.
\<close>

definition readable :: "heap \<Rightarrow> jsval \<Rightarrow> string \<Rightarrow> bool" where
  "readable h v k \<longleftrightarrow>
     own_prop h v k \<noteq> None \<or>
     (case kind_of h v of
        Some r \<Rightarrow> k \<noteq> ''__proto__'' \<and> (k \<in> set objectPrototype \<or> k \<notin> set (exotic r))
      | None \<Rightarrow> False)"

text \<open>
  A name that no built-in prototype defines, so that a value has it as an own
  property or not at all.
\<close>

definition plain_key :: "string \<Rightarrow> bool" where
  "plain_key k \<longleftrightarrow>
     k \<notin> set objectPrototype \<and> k \<notin> set (exotic ArrayR) \<and> k \<notin> set (exotic StringR) \<and>
     k \<notin> set (exotic NumberR) \<and> k \<notin> set (exotic BooleanR)"

text \<open>A value from which a plain key can be read: an object, an array or a primitive
  other than \<^verbatim>\<open>null\<close> and \<^verbatim>\<open>undefined\<close>.\<close>

definition has_fields :: "jsval \<Rightarrow> bool" where
  "has_fields v = (case v of Undefined \<Rightarrow> False | Null \<Rightarrow> False | Builtin r k \<Rightarrow> False | _ \<Rightarrow> True)"

text \<open>
  \<^verbatim>\<open>Object.assign(target, src)\<close> for a new object \<open>target\<close>: for each own key of the
  source, in order, the value read from the source is written to the target.
  \<open>emb\<close> embeds the value into the target's value type.
\<close>

fun assignKeys :: "(string \<Rightarrow> 'v) \<Rightarrow> 'v props \<Rightarrow> string list \<Rightarrow> error + 'v props" where
  "assignKeys f target [] = Inr target"
| "assignKeys f target (k # ks) = bindE (put target k (f k)) (\<lambda>t. assignKeys f t ks)"

definition objectAssign :: "heap \<Rightarrow> (jsval \<Rightarrow> 'v) \<Rightarrow> 'v props \<Rightarrow> jsval \<Rightarrow> error + 'v props" where
  "objectAssign h emb target src =
     assignKeys (\<lambda>k. emb (lookup h src k)) target (map fst (own_entries h src))"

text \<open>The properties \<^verbatim>\<open>Object.assign\<close> leaves on the target when no setter takes a write.\<close>

definition copy_props :: "heap \<Rightarrow> (jsval \<Rightarrow> 'v) \<Rightarrow> 'v props \<Rightarrow> jsval \<Rightarrow> 'v props" where
  "copy_props h emb target src =
     foldl (\<lambda>t k. set_prop t k (emb (lookup h src k))) target (map fst (own_entries h src))"

text \<open>\<^verbatim>\<open>Object.keys(v)\<close>, which raises on \<^verbatim>\<open>null\<close> and \<^verbatim>\<open>undefined\<close>.\<close>

definition objectKeys :: "heap \<Rightarrow> jsval \<Rightarrow> error + string list" where
  "objectKeys h v =
     (if v = Undefined \<or> v = Null then Inl TypeError else Inr (map fst (own_entries h v)))"

section \<open>resolveRef\<close>

text \<open>\<^verbatim>\<open>s.split(c)\<close>: the pieces of \<open>s\<close> between the occurrences of \<open>c\<close>; never empty.\<close>

fun split :: "char \<Rightarrow> string \<Rightarrow> string list" where
  "split c [] = [[]]"
| "split c (x # xs) =
     (if x = c then [] # split c xs
      else case split c xs of p # ps \<Rightarrow> (x # p) # ps | [] \<Rightarrow> [[x]])"

text \<open>
  The loop of \<^verbatim>\<open>resolveRef\<close>:
  \<^verbatim>\<open>while (parts.length) { value = value[parts.shift()]; assert.ok(value, ...) }\<close>
\<close>

fun resolveRef_loop :: "heap \<Rightarrow> jsval \<Rightarrow> string list \<Rightarrow> error + jsval" where
  "resolveRef_loop h v [] = Inr v"
| "resolveRef_loop h v (p # parts) =
     (case getProp h v p of
        Inl e \<Rightarrow> Inl e
      | Inr v' \<Rightarrow> if truthy v' then resolveRef_loop h v' parts else Inl InvalidReference)"

text \<open>
  \<^verbatim>\<open>resolveRef(ref, spec)\<close> for a string \<open>ref\<close>. The write to \<^verbatim>\<open>refCache\<close> is left
  out: the only read of that cache is commented out in the source.
\<close>

definition resolveRef :: "heap \<Rightarrow> string \<Rightarrow> jsval \<Rightarrow> error + jsval" where
  "resolveRef h ref spec =
     (case split CHR ''/'' ref of
        [] \<Rightarrow> Inl InvalidReferenceFormat
      | p # parts \<Rightarrow>
          if p = ''#'' then resolveRef_loop h spec parts else Inl InvalidReferenceFormat)"

text \<open>
  The values met by successive key lookup along the segments, starting from the
  document root.
\<close>

fun lookups :: "heap \<Rightarrow> jsval \<Rightarrow> string list \<Rightarrow> jsval list" where
  "lookups h v [] = []"
| "lookups h v (p # parts) = lookup h v p # lookups h (lookup h v p) parts"

definition absent :: "jsval \<Rightarrow> bool" where
  "absent v = (v = Undefined \<or> v = Null)"

text \<open>
  A walk the model follows to its end: every read it makes, up to the first one
  that yields a falsy value, is readable.
\<close>

fun followed :: "heap \<Rightarrow> jsval \<Rightarrow> string list \<Rightarrow> bool" where
  "followed h v [] = True"
| "followed h v (p # parts) =
     (readable h v p \<and> (truthy (lookup h v p) \<longrightarrow> followed h (lookup h v p) parts))"

section \<open>resolveRefs\<close>

text \<open>
  The process-wide state the resolver works on: the object store and the module-level
  set \<^verbatim>\<open>dataCache\<close> of the objects already visited. The set is created once, when
  the module is loaded, and is never cleared.
\<close>

record state =
  store :: heap
  dataCache :: "addr set"

text \<open>
  A call returns a value and the state it leaves, or raises; \<open>OutOfFuel\<close> says that
  the given recursion depth did not suffice. An exception aborts the whole call: the
  state it leaves behind is not observed by this module and is not modelled.
\<close>

datatype 'a outcome =
    Ok 'a state
  | Err error
  | OutOfFuel

text \<open>\<^verbatim>\<open>dataCache.has(data)\<close>: only objects are ever added to the set.\<close>

fun has :: "addr set \<Rightarrow> jsval \<Rightarrow> bool" where
  "has C (Ptr a) = (a \<in> C)"
| "has C v = False"

text \<open>
  What the call \<^verbatim>\<open>v.name(...)\<close> ends with when \<open>v\<close> is not of the type that has
  the method (\<^verbatim>\<open>ref.split('/')\<close> for a \<^verbatim>\<open>$ref\<close> that is no string,
  \<^verbatim>\<open>parameters.filter(...)\<close> for parameters that are no array): the read of the
  method raises, or what is read is no function and its call raises.
\<close>

definition noMethod :: "heap \<Rightarrow> jsval \<Rightarrow> string \<Rightarrow> error" where
  "noMethod h v name =
     (case getProp h v name of
        Inl e \<Rightarrow> e
      | Inr (Builtin r k) \<Rightarrow> Unsupported
      | Inr _ \<Rightarrow> TypeError)"

text \<open>
  Lines 132 to 136, for the object at address \<open>a\<close>:
  \<^verbatim>\<open>if (data.$ref) { const resolved = resolveRef(data.$ref, spec); delete data.$ref;
       data = Object.assign({}, resolved, data) }\<close>.
  The result is the address \<^verbatim>\<open>data\<close> then holds, with the new store. The target is
  read after the \<^verbatim>\<open>delete\<close>, as \<^verbatim>\<open>Object.assign\<close> does.
\<close>

definition followRef :: "heap \<Rightarrow> jsval \<Rightarrow> addr \<Rightarrow> error + addr \<times> heap" where
  "followRef h spec a =
     (let r = lookup h (Ptr a) ''$ref'' in
      if truthy r then
        (case r of
           Str ref \<Rightarrow>
             (case resolveRef h ref spec of
                Inl e \<Rightarrow> Inl e
              | Inr resolved \<Rightarrow>
                  let h1 = h[a := Obj (delete_prop ''$ref'' (obj_props h a))] in
                  bindE (objectAssign h1 (\<lambda>v. v) [] resolved) (\<lambda>t.
                  bindE (objectAssign h1 (\<lambda>v. v) t (Ptr a)) (\<lambda>merged.
                    Inr (length h1, h1 @ [Obj merged]))))
         | _ \<Rightarrow> Inl (noMethod h r ''split''))
      else Inr (a, h))"

text \<open>
  \<^verbatim>\<open>data.map(item => resolveRefs(item, spec))\<close>, the callback being \<open>f\<close>. No statement
  of the module writes to an array, so the elements are those the array has when
  \<^verbatim>\<open>map\<close> starts.
\<close>

fun mapItems :: "(state \<Rightarrow> jsval \<Rightarrow> jsval outcome) \<Rightarrow> state \<Rightarrow> jsval list \<Rightarrow> (jsval list) outcome" where
  "mapItems f st [] = Ok [] st"
| "mapItems f st (x # xs) =
     (case f st x of
        Ok y st1 \<Rightarrow>
          (case mapItems f st1 xs of
             Ok ys st2 \<Rightarrow> Ok (y # ys) st2
           | Err e \<Rightarrow> Err e
           | OutOfFuel \<Rightarrow> OutOfFuel)
      | Err e \<Rightarrow> Err e
      | OutOfFuel \<Rightarrow> OutOfFuel)"

text \<open>
  \<^verbatim>\<open>data[name] = v\<close> for the object at address \<open>a\<close>, when no setter takes the
  write.
\<close>

definition writeProp :: "addr \<Rightarrow> string \<Rightarrow> jsval \<Rightarrow> state \<Rightarrow> state" where
  "writeProp a k v st =
     st\<lparr>store := (store st)[a := Obj (set_prop (obj_props (store st) a) k v)]\<rparr>"

text \<open>
  \<^verbatim>\<open>for (let name in data) { data[name] = resolveRefs(data[name], spec) }\<close> over the
  keys \<open>ks\<close> the object at \<open>a\<close> has when the loop starts; \<^verbatim>\<open>Object.prototype\<close> adds
  no enumerable key to them. The value is read when its key is reached; a key
  deleted in the meantime is skipped.
\<close>

fun forIn :: "(state \<Rightarrow> jsval \<Rightarrow> jsval outcome) \<Rightarrow> addr \<Rightarrow> state \<Rightarrow> string list \<Rightarrow> unit outcome" where
  "forIn f a st [] = Ok () st"
| "forIn f a st (k # ks) =
     (case map_of (obj_props (store st) a) k of
        None \<Rightarrow> forIn f a st ks
      | Some v \<Rightarrow>
          (case f st v of
             Ok r st1 \<Rightarrow>
               if setter_runs (obj_props (store st1) a) k then Err Unsupported
               else forIn f a (writeProp a k r st1) ks
           | Err e \<Rightarrow> Err e
           | OutOfFuel \<Rightarrow> OutOfFuel))"

text \<open>
  \<^verbatim>\<open>resolveRefs(data, spec)\<close>. The first argument bounds the depth of the recursion.
  The array \<^verbatim>\<open>map\<close> returns is allocated when its elements are known. A built-in
  function is neither an array nor of type \<^verbatim>\<open>'object'\<close>.
\<close>

fun resolveRefs :: "nat \<Rightarrow> state \<Rightarrow> jsval \<Rightarrow> jsval \<Rightarrow> jsval outcome" where
  "resolveRefs 0 st spec data = OutOfFuel"
| "resolveRefs (Suc n) st spec data =
     (if \<not> truthy data \<or> has (dataCache st) data then Ok data st
      else case data of
        Ptr a \<Rightarrow>
          (case cell_at (store st) a of
             Some (Arr xs) \<Rightarrow>
               (case mapItems (\<lambda>s v. resolveRefs n s spec v) st xs of
                  Ok ys st1 \<Rightarrow>
                    Ok (Ptr (length (store st1))) (st1\<lparr>store := store st1 @ [Arr ys]\<rparr>)
                | Err e \<Rightarrow> Err e
                | OutOfFuel \<Rightarrow> OutOfFuel)
           | Some (Obj ps) \<Rightarrow>
               (case followRef (store st) spec a of
                  Inl e \<Rightarrow> Err e
                | Inr (a', h1) \<Rightarrow>
                    (case forIn (\<lambda>s v. resolveRefs n s spec v) a'
                            \<lparr>store = h1, dataCache = insert a' (dataCache st)\<rparr>
                            (map fst (obj_props h1 a')) of
                       Ok u st2 \<Rightarrow> Ok (Ptr a') st2
                     | Err e \<Rightarrow> Err e
                     | OutOfFuel \<Rightarrow> OutOfFuel))
           | None \<Rightarrow> Ok data st)
      | _ \<Rightarrow> Ok data st)"

section \<open>Building the operation descriptor\<close>

text \<open>
  What the module builds afresh (object literals, the results of \<^verbatim>\<open>reduce\<close>,
  \<^verbatim>\<open>filter\<close> and \<^verbatim>\<open>map\<close>) is never compared by identity, so it is a tree:
  \<open>NewObj\<close> is a new object with its own properties in order and the prototype
  \<^verbatim>\<open>Object.prototype\<close>, \<open>NewArr\<close> a new array, \<open>Val\<close> a value taken over from the
  document (a primitive or a pointer into the store, shared and not copied).
\<close>

datatype dval =
    Val jsval
  | NewObj "(string \<times> dval) list"
  | NewArr "dval list"

definition dget :: "dval \<Rightarrow> string \<Rightarrow> dval" where
  "dget d k =
     (case d of
        NewObj ps \<Rightarrow> (case map_of ps k of Some x \<Rightarrow> x | None \<Rightarrow> Val Undefined)
      | _ \<Rightarrow> Val Undefined)"

definition dkeys :: "dval \<Rightarrow> string list" where
  "dkeys d = (case d of NewObj ps \<Rightarrow> map fst ps | _ \<Rightarrow> [])"

fun mapE :: "('a \<Rightarrow> error + 'b) \<Rightarrow> 'a list \<Rightarrow> error + 'b list" where
  "mapE f [] = Inr []"
| "mapE f (x # xs) = bindE (f x) (\<lambda>y. bindE (mapE f xs) (\<lambda>ys. Inr (y # ys)))"

fun filterE :: "('a \<Rightarrow> error + bool) \<Rightarrow> 'a list \<Rightarrow> error + 'a list" where
  "filterE f [] = Inr []"
| "filterE f (x # xs) =
     bindE (f x) (\<lambda>b. bindE (filterE f xs) (\<lambda>ys. Inr (if b then x # ys else ys)))"

text \<open>
  The string a value is rendered as in a template literal or as a property key. An
  integer of magnitude up to \<open>2^53\<close> is printed in plain decimal; any other number
  is named by its rendering. The rendering of an object, an array or a function
  goes through its \<^verbatim>\<open>toString\<close> method and is not modelled.
\<close>

fun toString :: "jsval \<Rightarrow> error + string" where
  "toString Undefined = Inr ''undefined''"
| "toString Null = Inr ''null''"
| "toString (Bool b) = Inr (if b then ''true'' else ''false'')"
| "toString (Num n) =
     (if \<bar>n\<bar> \<le> 9007199254740992
      then Inr ((if n < 0 then ''-'' else []) @ dec (nat \<bar>n\<bar>))
      else Inl Unsupported)"
| "toString (Double s) = Inr s"
| "toString NaN = Inr ''NaN''"
| "toString (Str s) = Inr s"
| "toString (Ptr a) = Inl Unsupported"
| "toString (Builtin r k) = Inl Unsupported"

text \<open>The values the model renders.\<close>

definition renderable :: "jsval \<Rightarrow> bool" where
  "renderable v =
     (case v of
        Ptr a \<Rightarrow> False
      | Builtin r k \<Rightarrow> False
      | Num n \<Rightarrow> \<bar>n\<bar> \<le> 9007199254740992
      | _ \<Rightarrow> True)"

text \<open>The elements of a value on which \<^verbatim>\<open>filter\<close> is called.\<close>

definition elements :: "heap \<Rightarrow> jsval \<Rightarrow> error + jsval list" where
  "elements h v =
     (case v of
        Ptr a \<Rightarrow>
          (case cell_at h a of
             Some (Arr xs) \<Rightarrow> Inr xs
           | _ \<Rightarrow> Inl (noMethod h v ''filter''))
      | _ \<Rightarrow> Inl (noMethod h v ''filter''))"

text \<open>\<^verbatim>\<open>v[k] = x\<close> in strict mode.\<close>

definition putProp :: "heap \<Rightarrow> jsval \<Rightarrow> string \<Rightarrow> jsval \<Rightarrow> error + heap" where
  "putProp h v k x =
     (case v of
        Ptr a \<Rightarrow>
          (case cell_at h a of
             Some (Obj ps) \<Rightarrow> bindE (put ps k x) (\<lambda>ps'. Inr (h[a := Obj ps']))
           | _ \<Rightarrow> Inl Unsupported)
      | Builtin r n \<Rightarrow> Inl Unsupported
      | _ \<Rightarrow> Inl TypeError)"

subsection \<open>applyDefaults and getOperationProperty\<close>

text \<open>\<^verbatim>\<open>if (!spec.basePath) spec.basePath = '/'; return spec\<close>\<close>

definition applyDefaults :: "heap \<Rightarrow> jsval \<Rightarrow> error + jsval \<times> heap" where
  "applyDefaults h spec =
     bindE (getProp h spec ''basePath'') (\<lambda>bp.
       if \<not> truthy bp
       then bindE (putProp h spec ''basePath'' (Str ''/'')) (\<lambda>h'. Inr (spec, h'))
       else Inr (spec, h))"

text \<open>\<^verbatim>\<open>(pathInfo && pathInfo[prop]) ? pathInfo[prop] : spec[prop]\<close>\<close>

definition getOperationProperty :: "heap \<Rightarrow> string \<Rightarrow> jsval \<Rightarrow> jsval \<Rightarrow> error + jsval" where
  "getOperationProperty h prop pathInfo spec =
     bindE (if truthy pathInfo then getProp h pathInfo prop else Inr pathInfo) (\<lambda>c.
       if truthy c then getProp h pathInfo prop else getProp h spec prop)"

subsection \<open>Parameter schemas\<close>

definition PARAM_GROUPS :: "string list" where
  "PARAM_GROUPS = [''header'', ''path'', ''query'', ''body'', ''formData'']"

definition HTTP_METHODS :: "string list" where
  "HTTP_METHODS = [''get'', ''put'', ''post'', ''delete'', ''options'', ''head'', ''patch'']"

text \<open>\<^verbatim>\<open>Object.assign({}, v)\<close>: a new object with the own properties of \<open>v\<close>.\<close>

definition shallowCopy :: "heap \<Rightarrow> jsval \<Rightarrow> error + dval" where
  "shallowCopy h v = bindE (objectAssign h Val [] v) (\<lambda>ps. Inr (NewObj ps))"

text \<open>
  The \<^verbatim>\<open>reduce\<close> of \<^verbatim>\<open>createParamsSchema\<close>:
  \<^verbatim>\<open>props[param.name] = param = Object.assign({}, param)\<close> for each parameter.
\<close>

fun paramProps :: "heap \<Rightarrow> dval props \<Rightarrow> jsval list \<Rightarrow> error + dval props" where
  "paramProps h props [] = Inr props"
| "paramProps h props (param # params) =
     bindE (getProp h param ''name'') (\<lambda>name.
     bindE (toString name) (\<lambda>k.
     bindE (shallowCopy h param) (\<lambda>copy.
     bindE (put props k copy) (\<lambda>props'.
       paramProps h props' params))))"

definition createParamsSchema :: "heap \<Rightarrow> jsval list \<Rightarrow> error + dval" where
  "createParamsSchema h params =
     bindE (paramProps h [] params) (\<lambda>props.
     bindE (filterE (\<lambda>param. bindE (getProp h param ''required'') (\<lambda>r. Inr (truthy r))) params)
       (\<lambda>req.
     bindE (mapE (\<lambda>param. getProp h param ''name'') req) (\<lambda>names.
       Inr (NewObj [(''type'', Val (Str ''object'')),
               (''properties'', NewObj props),
               (''required'', NewArr (map Val names))]))))"

text \<open>
  The callback of \<^verbatim>\<open>PARAM_GROUPS.map\<close> in \<^verbatim>\<open>createParamGroupSchemas\<close>: the pair
  \<^verbatim>\<open>{ in: loc, schema }\<close> for the parameters whose \<^verbatim>\<open>in\<close> is \<open>loc\<close>.
\<close>

definition paramGroup :: "heap \<Rightarrow> jsval \<Rightarrow> string \<Rightarrow> error + string \<times> dval" where
  "paramGroup h parameters loc =
     bindE (elements h parameters) (\<lambda>items.
     bindE (filterE (\<lambda>param. bindE (getProp h param ''in'') (\<lambda>i. Inr (i = Str loc))) items)
       (\<lambda>params.
     bindE (createParamsSchema h params) (\<lambda>schema. Inr (loc, schema))))"

text \<open>
  \<^verbatim>\<open>createParamGroupSchemas(parameters)\<close>: one pair for each location, those with
  an empty \<^verbatim>\<open>properties\<close> dropped, the rest collected under their location.
\<close>

definition createParamGroupSchemas :: "heap \<Rightarrow> jsval \<Rightarrow> error + dval" where
  "createParamGroupSchemas h parameters =
     bindE (mapE (paramGroup h parameters) PARAM_GROUPS) (\<lambda>groups.
     bindE (assign [] (filter (\<lambda>g. length (dkeys (dget (snd g) ''properties'')) \<noteq> 0) groups))
       (\<lambda>collected. Inr (NewObj collected)))"

text \<open>
  For the statement of the parameter schemas: the parameters of a location, the
  names of the parameters marked required, and the shape of a generated schema.
\<close>

definition inLocation :: "heap \<Rightarrow> string \<Rightarrow> jsval list \<Rightarrow> jsval list" where
  "inLocation h loc items = filter (\<lambda>p. lookup h p ''in'' = Str loc) items"

definition requiredNames :: "heap \<Rightarrow> jsval list \<Rightarrow> jsval list" where
  "requiredNames h params =
     map (\<lambda>p. lookup h p ''name'') (filter (\<lambda>p. truthy (lookup h p ''required'')) params)"

definition paramsSchema :: "dval props \<Rightarrow> jsval list \<Rightarrow> dval" where
  "paramsSchema props names =
     NewObj [(''type'', Val (Str ''object'')), (''properties'', NewObj props),
             (''required'', NewArr (map Val names))]"

text \<open>
  The invariant of the schemas collected for the parameters \<open>items\<close>: every
  key is one of the five locations; a location is a key exactly when some
  parameter has it; the schema under a location has as its \<^verbatim>\<open>properties\<close> one
  entry for each name (as rendered) of the parameters of the location, and as its
  \<^verbatim>\<open>required\<close> array the names of those marked required, each of which, as a
  property key, is a key of \<^verbatim>\<open>properties\<close>.
\<close>

definition group_schemas :: "heap \<Rightarrow> jsval list \<Rightarrow> dval props \<Rightarrow> bool" where
  "group_schemas h items groups \<longleftrightarrow>
     fst ` set groups \<subseteq> set PARAM_GROUPS \<and>
     (\<forall>loc \<in> set PARAM_GROUPS.
        loc \<in> fst ` set groups \<longleftrightarrow> (\<exists>p \<in> set items. lookup h p ''in'' = Str loc)) \<and>
     (\<forall>g \<in> set groups. \<exists>props.
        snd g = paramsSchema props (requiredNames h (inLocation h (fst g) items)) \<and>
        fst ` set props =
          {k. \<exists>p \<in> set (inLocation h (fst g) items). toString (lookup h p ''name'') = Inr k} \<and>
        (\<forall>v \<in> set (requiredNames h (inLocation h (fst g) items)).
           \<exists>k. toString v = Inr k \<and> k \<in> fst ` set props))"

text \<open>
  A parameter the schemas are built from without leaving the model: an object of
  the store without a key \<^verbatim>\<open>__proto__\<close>, whose \<^verbatim>\<open>name\<close> is rendered as a key
  other than \<^verbatim>\<open>__proto__\<close>.
\<close>

definition plain_param :: "heap \<Rightarrow> jsval \<Rightarrow> bool" where
  "plain_param h p =
     (case p of
        Ptr a \<Rightarrow>
          (case cell_at h a of
             Some (Obj ps) \<Rightarrow>
               map_of ps ''__proto__'' = None \<and> renderable (lookup h p ''name'') \<and>
               toString (lookup h p ''name'') \<noteq> Inr ''__proto__''
           | _ \<Rightarrow> False)
      | _ \<Rightarrow> False)"

subsection \<open>Response schemas\<close>

definition createResponseHeadersSchema :: "heap \<Rightarrow> jsval \<Rightarrow> error + dval" where
  "createResponseHeadersSchema h headers =
     (if \<not> truthy headers then Inr (Val Undefined)
      else
        bindE (objectKeys h headers) (\<lambda>keys.
        bindE (filterE (\<lambda>name.
                 bindE (getProp h headers name) (\<lambda>header.
                 bindE (getProp h header ''required'') (\<lambda>r. Inr (truthy r)))) keys) (\<lambda>req.
          Inr (NewObj [(''type'', Val (Str ''object'')),
                  (''properties'', Val headers),
                  (''required'', NewArr (map (\<lambda>name. Val (Str name)) req))]))))"

text \<open>
  The callback of \<^verbatim>\<open>Object.keys(responses).map\<close> in \<^verbatim>\<open>createResponseSchemas\<close>,
  paired with the key under which \<^verbatim>\<open>reduce\<close> stores its result.
\<close>

definition responseSchema :: "heap \<Rightarrow> jsval \<Rightarrow> string \<Rightarrow> error + string \<times> dval" where
  "responseSchema h responses = (\<lambda>id.
     bindE (getProp h responses id) (\<lambda>response.
     bindE (getProp h response ''schema'') (\<lambda>schema.
     bindE (getProp h responses id) (\<lambda>response'.
     bindE (getProp h response' ''headers'') (\<lambda>headers.
     bindE (createResponseHeadersSchema h headers) (\<lambda>headersSchema.
       Inr (id, NewObj [(''id'', Val (Str id)),
                        (''bodySchema'', Val schema),
                        (''headersSchema'', headersSchema)])))))))"

definition createResponseSchemas :: "heap \<Rightarrow> jsval \<Rightarrow> error + dval" where
  "createResponseSchemas h responses =
     bindE (objectKeys h responses) (\<lambda>ids.
     bindE (mapE (responseSchema h responses) ids) (\<lambda>entries.
     bindE (assign [] entries) (\<lambda>result. Inr (NewObj result))))"

text \<open>
  For the statement of the response schemas: the headers schema of a \<^verbatim>\<open>headers\<close>
  value and the entry of a response key, written with total lookups.
\<close>

definition headersSchema :: "heap \<Rightarrow> jsval \<Rightarrow> dval" where
  "headersSchema h headers =
     (if \<not> truthy headers then Val Undefined
      else NewObj [(''type'', Val (Str ''object'')),
                   (''properties'', Val headers),
                   (''required'', NewArr (map (\<lambda>name. Val (Str name))
                      (filter (\<lambda>name. truthy (lookup h (lookup h headers name) ''required''))
                         (map fst (own_entries h headers)))))])"

definition responseEntry :: "heap \<Rightarrow> jsval \<Rightarrow> string \<Rightarrow> dval" where
  "responseEntry h responses key =
     NewObj [(''id'', Val (Str key)),
             (''bodySchema'', Val (lookup h (lookup h responses key) ''schema'')),
             (''headersSchema'', headersSchema h (lookup h (lookup h responses key) ''headers''))]"

text \<open>
  A response the schemas are built from without raising and without leaving the
  model: a value with fields whose headers, when it declares any, have fields in
  turn.
\<close>

definition plain_response :: "heap \<Rightarrow> jsval \<Rightarrow> bool" where
  "plain_response h v \<longleftrightarrow>
     has_fields v \<and>
     list_all (\<lambda>name. has_fields (lookup h (lookup h v ''headers'') name))
       (map fst (own_entries h (lookup h v ''headers'')))"

subsection \<open>Path normalization\<close>

text \<open>
  Modelled from the spec: \<^verbatim>\<open>path.normalize\<close> belongs to the platform's \<^verbatim>\<open>path\<close>
  module and is not part of the repository. The spec asks for standard path
  normalization, which collapses duplicate slashes and resolves \<^verbatim>\<open>.\<close> and \<^verbatim>\<open>..\<close>
  segments; the definitions follow the POSIX variant of the platform: \<^verbatim>\<open>..\<close>
  removes the segment before it, is dropped at the root of an absolute path and is
  kept at the front of a relative one; a trailing slash is kept; the empty path
  normalizes to \<^verbatim>\<open>.\<close>.
\<close>

fun normalizeString :: "bool \<Rightarrow> string list \<Rightarrow> string list \<Rightarrow> string list" where
  "normalizeString allowAboveRoot res [] = res"
| "normalizeString allowAboveRoot res (s # segs) =
     (if s = [] \<or> s = ''.'' then normalizeString allowAboveRoot res segs
      else if s = ''..'' then
        (if res \<noteq> [] \<and> last res \<noteq> ''..'' then normalizeString allowAboveRoot (butlast res) segs
         else if allowAboveRoot then normalizeString allowAboveRoot (res @ [''..'']) segs
         else normalizeString allowAboveRoot res segs)
      else normalizeString allowAboveRoot (res @ [s]) segs)"

fun join :: "string list \<Rightarrow> string" where
  "join [] = []"
| "join [s] = s"
| "join (s # t # ss) = s @ ''/'' @ join (t # ss)"

definition normalize :: "string \<Rightarrow> string" where
  "normalize p =
     (if p = [] then ''.''
      else
        let isAbsolute = (hd p = CHR ''/'');
            trailingSeparator = (last p = CHR ''/'');
            res = join (normalizeString (\<not> isAbsolute) [] (split CHR ''/'' p))
        in if res = [] then (if isAbsolute then ''/'' else if trailingSeparator then ''./'' else ''.'')
           else (if isAbsolute then ''/'' else []) @ res @ (if trailingSeparator then ''/'' else []))"

text \<open>A segment of a normalized path: not empty, not a dot segment, without a slash.\<close>

definition plain_segment :: "string \<Rightarrow> bool" where
  "plain_segment s \<longleftrightarrow> s \<noteq> [] \<and> s \<noteq> ''.'' \<and> s \<noteq> ''..'' \<and> CHR ''/'' \<notin> set s"

subsection \<open>createPathOperation\<close>

text \<open>
  \<^verbatim>\<open>if (!operationInfo[k]) operationInfo[k] = fresh\<close>, where \<open>fresh\<close> is a new empty
  array or object; it is allocated before the write is attempted.
\<close>

definition defaultProp :: "heap \<Rightarrow> jsval \<Rightarrow> string \<Rightarrow> cell \<Rightarrow> error + heap" where
  "defaultProp h v k fresh =
     bindE (getProp h v k) (\<lambda>x.
       if \<not> truthy x then putProp (h @ [fresh]) v k (Ptr (length h)) else Inr h)"

text \<open>The template literal of line 112 under \<^verbatim>\<open>path.normalize\<close>.\<close>

definition fullPath :: "heap \<Rightarrow> jsval \<Rightarrow> jsval \<Rightarrow> error + string" where
  "fullPath h spec pathInfo =
     bindE (getProp h spec ''basePath'') (\<lambda>basePath.
     bindE (toString basePath) (\<lambda>b.
     bindE (getProp h pathInfo ''path'') (\<lambda>path.
     bindE (toString path) (\<lambda>p.
       Inr (normalize (''/'' @ b @ ''/'' @ p))))))"

text \<open>
  The first argument of \<^verbatim>\<open>Object.assign\<close> in lines 109 to 118: the computed fields,
  evaluated in the order in which they are written.
\<close>

definition computedFields ::
  "heap \<Rightarrow> string \<Rightarrow> jsval \<Rightarrow> jsval \<Rightarrow> jsval \<Rightarrow> error + dval props" where
  "computedFields h method pathInfo operationInfo spec =
     bindE (getProp h operationInfo ''operationId'') (\<lambda>id.
     bindE (getProp h pathInfo ''path'') (\<lambda>path.
     bindE (fullPath h spec pathInfo) (\<lambda>full.
     bindE (getOperationProperty h ''consumes'' operationInfo spec) (\<lambda>consumes.
     bindE (getOperationProperty h ''produces'' operationInfo spec) (\<lambda>produces.
     bindE (getProp h operationInfo ''parameters'') (\<lambda>parameters.
     bindE (createParamGroupSchemas h parameters) (\<lambda>paramGroupSchemas.
     bindE (getProp h operationInfo ''responses'') (\<lambda>responses.
     bindE (createResponseSchemas h responses) (\<lambda>responseSchemas.
       Inr [(''id'', Val id),
            (''path'', Val path),
            (''fullPath'', Val (Str full)),
            (''consumes'', Val consumes),
            (''produces'', Val produces),
            (''paramGroupSchemas'', paramGroupSchemas),
            (''responseSchemas'', responseSchemas),
            (''method'', Val (Str method))])))))))))"

text \<open>
  Lines 107 to 120, after the references of the operation node are resolved: the
  defaults for \<^verbatim>\<open>parameters\<close> and \<^verbatim>\<open>responses\<close>, the computed fields overlaid by
  the path's extension fields and by the operation node's own fields, and the
  removal of \<^verbatim>\<open>operationId\<close>. It returns the descriptor and the store it leaves.
\<close>

definition assemble ::
  "heap \<Rightarrow> string \<Rightarrow> jsval \<Rightarrow> jsval \<Rightarrow> jsval \<Rightarrow> jsval \<Rightarrow> error + dval \<times> heap" where
  "assemble h method pathInfo pathsXProps operationInfo spec =
     bindE (defaultProp h operationInfo ''parameters'' (Arr [])) (\<lambda>h1.
     bindE (defaultProp h1 operationInfo ''responses'' (Obj [])) (\<lambda>h2.
     bindE (computedFields h2 method pathInfo operationInfo spec) (\<lambda>computed.
     bindE (objectAssign h2 Val computed pathsXProps) (\<lambda>t.
     bindE (objectAssign h2 Val t operationInfo) (\<lambda>operation.
       Inr (NewObj (delete_prop ''operationId'' operation), h2))))))"

text \<open>\<^verbatim>\<open>createPathOperation(method, pathInfo, pathsXProps, spec)\<close>, with the recursion
  depth granted to \<^verbatim>\<open>resolveRefs\<close>.\<close>

definition createPathOperation ::
  "nat \<Rightarrow> state \<Rightarrow> string \<Rightarrow> jsval \<Rightarrow> jsval \<Rightarrow> jsval \<Rightarrow> dval outcome" where
  "createPathOperation n st method pathInfo pathsXProps spec =
     (case getProp (store st) pathInfo method of
        Inl e \<Rightarrow> Err e
      | Inr node \<Rightarrow>
          (case resolveRefs n st spec node of
             Ok operationInfo st1 \<Rightarrow>
               (case assemble (store st1) method pathInfo pathsXProps operationInfo spec of
                  Inl e \<Rightarrow> Err e
                | Inr (operation, h2) \<Rightarrow> Ok operation (st1\<lparr>store := h2\<rparr>))
           | Err e \<Rightarrow> Err e
           | OutOfFuel \<Rightarrow> OutOfFuel))"

section \<open>Invariants of the resolver\<close>

text \<open>The cell at \<open>a\<close> is a plain object (\<^verbatim>\<open>typeof\<close> gives \<^verbatim>\<open>'object'\<close> and it is no array).\<close>

definition is_obj :: "heap \<Rightarrow> addr \<Rightarrow> bool" where
  "is_obj h a = (case cell_at h a of Some (Obj ps) \<Rightarrow> True | _ \<Rightarrow> False)"

text \<open>
  What every call of \<^verbatim>\<open>resolveRefs\<close> does to the state, whatever its arguments: the
  store and the memo only grow; arrays are never written to; objects stay objects;
  an object that was in the memo beforehand is left as it is; every object allocated
  by the call is in the memo afterwards; and an older object that is still outside
  the memo has lost at most its \<^verbatim>\<open>$ref\<close>.
\<close>

definition evolves :: "state \<Rightarrow> state \<Rightarrow> bool" where
  "evolves st st' \<longleftrightarrow>
     length (store st) \<le> length (store st') \<and>
     dataCache st \<subseteq> dataCache st' \<and>
     (\<forall>a xs. cell_at (store st) a = Some (Arr xs) \<longrightarrow> cell_at (store st') a = Some (Arr xs)) \<and>
     (\<forall>a. is_obj (store st) a \<longrightarrow> is_obj (store st') a) \<and>
     (\<forall>a \<in> dataCache st. a < length (store st) \<longrightarrow> cell_at (store st') a = cell_at (store st) a) \<and>
     (\<forall>a. length (store st) \<le> a \<and> is_obj (store st') a \<longrightarrow> a \<in> dataCache st') \<and>
     (\<forall>a. a < length (store st) \<and> a \<notin> dataCache st' \<longrightarrow>
        obj_props (store st') a = obj_props (store st) a \<or>
        obj_props (store st') a = delete_prop ''$ref'' (obj_props (store st) a))"

text \<open>
  A store is closed when every pointer stored in it points into it: a running
  program has no dangling pointers.
\<close>

definition closed :: "heap \<Rightarrow> jsval \<Rightarrow> bool" where
  "closed h v = (case v of Ptr a \<Rightarrow> a < length h | _ \<Rightarrow> True)"

definition closed_cell :: "heap \<Rightarrow> cell \<Rightarrow> bool" where
  "closed_cell h c =
     (case c of
        Obj ps \<Rightarrow> list_all (\<lambda>kv. closed h (snd kv)) ps
      | Arr xs \<Rightarrow> list_all (closed h) xs)"

definition closed_store :: "heap \<Rightarrow> bool" where
  "closed_store h = list_all (closed_cell h) h"

text \<open>
  A value on which a pass of the resolver has nothing left to do: a primitive, a
  visited object, or an array of such values.
\<close>

inductive resolved :: "state \<Rightarrow> jsval \<Rightarrow> bool" where
  primitive: "\<forall>a. v \<noteq> Ptr a \<Longrightarrow> resolved st v"
| visited: "a \<in> dataCache st \<Longrightarrow> resolved st (Ptr a)"
| elements: "cell_at (store st) a = Some (Arr xs) \<Longrightarrow> \<forall>x \<in> set xs. resolved st x \<Longrightarrow>
             resolved st (Ptr a)"

text \<open>Two values are of the same shape when they differ at most in the identity of arrays.\<close>

inductive same_shape :: "heap \<Rightarrow> jsval \<Rightarrow> jsval \<Rightarrow> bool" where
  same: "same_shape h v v"
| arrays: "cell_at h a = Some (Arr xs) \<Longrightarrow> cell_at h b = Some (Arr ys) \<Longrightarrow>
           list_all2 (same_shape h) xs ys \<Longrightarrow> same_shape h (Ptr a) (Ptr b)"

text \<open>The second state differs from the first only by new arrays.\<close>

definition is_arr :: "cell \<Rightarrow> bool" where
  "is_arr c = (case c of Arr xs \<Rightarrow> True | Obj ps \<Rightarrow> False)"

definition only_new_arrays :: "state \<Rightarrow> state \<Rightarrow> bool" where
  "only_new_arrays st st' \<longleftrightarrow>
     dataCache st' = dataCache st \<and>
     (\<exists>new. store st' = store st @ new \<and> list_all is_arr new)"











section \<open>Properties of property lists\<close>

lemma map_of_None_keys: "map_of ps k = None \<longleftrightarrow> k \<notin> fst ` set ps"
  by (simp add: map_of_eq_None_iff)

lemma map_of_replace_prop:
  "map_of ps k = Some x \<Longrightarrow> map_of (replace_prop k v ps) = (map_of ps)(k \<mapsto> v)"
  by (induction ps) (auto split: if_splits)

lemma keys_replace_prop: "map fst (replace_prop k v ps) = map fst ps"
  by (induction ps) auto

lemma keys_replace_prop_set: "fst ` set (replace_prop k v ps) = fst ` set ps"
proof -
  have "set (map fst (replace_prop k v ps)) = set (map fst ps)"
    by (simp only: keys_replace_prop)
  then show ?thesis by (simp only: set_map)
qed

lemma insert_index_split:
  "\<exists>xs ys. ps = xs @ ys \<and> insert_index i k v ps = xs @ (k, v) # ys"
proof (induction ps)
  case Nil
  show ?case by simp
next
  case (Cons p ps)
  obtain k' v' where p: "p = (k', v')" by (cases p)
  from Cons.IH obtain xs ys where s: "ps = xs @ ys" "insert_index i k v ps = xs @ (k, v) # ys"
    by blast
  show ?case
  proof (cases "\<exists>j. parse_index k' = Some j \<and> j < i")
    case True
    then obtain j where "parse_index k' = Some j" "j < i" by blast
    then have "insert_index i k v (p # ps) = (p # xs) @ (k, v) # ys"
      by (simp add: p s(2))
    moreover have "p # ps = (p # xs) @ ys" by (simp add: s(1))
    ultimately show ?thesis by blast
  next
    case False
    then have "insert_index i k v (p # ps) = [] @ (k, v) # p # ps"
      by (cases "parse_index k'") (auto simp: p)
    moreover have "p # ps = [] @ p # ps" by simp
    ultimately show ?thesis by blast
  qed
qed

lemma map_of_mid_new:
  assumes "map_of (xs @ ys) k = None"
  shows "map_of (xs @ (k, v) # ys) = (map_of (xs @ ys))(k \<mapsto> v)"
proof
  fix x
  from assms have "map_of xs k = None" "map_of ys k = None"
    by (auto simp: map_add_def split: option.splits)
  then show "map_of (xs @ (k, v) # ys) x = ((map_of (xs @ ys))(k \<mapsto> v)) x"
    by (cases "x = k") (auto simp: map_add_def split: option.splits)
qed

lemma map_of_insert_index:
  assumes "map_of ps k = None"
  shows "map_of (insert_index i k v ps) = (map_of ps)(k \<mapsto> v)"
proof -
  obtain xs ys where s: "ps = xs @ ys" "insert_index i k v ps = xs @ (k, v) # ys"
    using insert_index_split [of ps i k v] by blast
  from assms have "map_of (xs @ ys) k = None"
    by (simp only: s(1))
  then have "map_of (xs @ (k, v) # ys) = (map_of (xs @ ys))(k \<mapsto> v)"
    by (rule map_of_mid_new)
  then show ?thesis
    by (simp only: s(2) s(1) [symmetric])
qed

lemma keys_insert_index: "fst ` set (insert_index i k v ps) = insert k (fst ` set ps)"
proof -
  obtain xs ys where s: "ps = xs @ ys" "insert_index i k v ps = xs @ (k, v) # ys"
    using insert_index_split [of ps i k v] by blast
  have "fst ` set (xs @ (k, v) # ys) = insert k (fst ` set (xs @ ys))"
    by (simp add: image_Un)
  then show ?thesis
    by (simp only: s(2) s(1) [symmetric])
qed

lemma distinct_insert_index:
  assumes "k \<notin> fst ` set ps" and "distinct (map fst ps)"
  shows "distinct (map fst (insert_index i k v ps))"
proof -
  obtain xs ys where s: "ps = xs @ ys" "insert_index i k v ps = xs @ (k, v) # ys"
    using insert_index_split [of ps i k v] by blast
  have "k \<notin> fst ` set (xs @ ys)" "distinct (map fst (xs @ ys))"
    using assms by (simp_all add: s(1))
  then have "distinct (map fst (xs @ (k, v) # ys))"
    by (auto simp: image_Un)
  then show ?thesis
    by (simp only: s(2))
qed

lemma map_of_set_prop: "map_of (set_prop ps k v) = (map_of ps)(k \<mapsto> v)"
proof (cases "map_of ps k")
  case (Some x)
  then show ?thesis by (simp add: set_prop_def map_of_replace_prop)
next
  case None
  show ?thesis
  proof (cases "parse_index k")
    case (Some i)
    with None show ?thesis by (simp add: set_prop_def map_of_insert_index)
  next
    case n: None
    have "set_prop ps k v = ps @ (k, v) # []"
      using None n by (simp add: set_prop_def)
    then show ?thesis
      using map_of_mid_new [of ps "[]" k v] None by simp
  qed
qed

lemma keys_set_prop: "fst ` set (set_prop ps k v) = insert k (fst ` set ps)"
proof (cases "map_of ps k")
  case None
  then show ?thesis
    by (cases "parse_index k") (simp_all add: set_prop_def keys_insert_index)
next
  case (Some x)
  then have "k \<in> fst ` set ps"
    using map_of_None_keys [of ps k] by simp
  then have "insert k (fst ` set ps) = fst ` set ps" by blast
  with Some show ?thesis
    by (simp add: set_prop_def keys_replace_prop_set)
qed

lemma keys_set_prop_present:
  assumes "k \<in> fst ` set ps"
  shows "map fst (set_prop ps k v) = map fst ps"
proof -
  from assms obtain x where "map_of ps k = Some x"
    using map_of_None_keys [of ps k] by (cases "map_of ps k") auto
  then show ?thesis by (simp add: set_prop_def keys_replace_prop)
qed

lemma distinct_set_prop:
  assumes "distinct (map fst ps)"
  shows "distinct (map fst (set_prop ps k v))"
proof (cases "map_of ps k")
  case None
  then have "k \<notin> fst ` set ps" by (simp add: map_of_None_keys)
  with None assms show ?thesis
    by (cases "parse_index k") (simp_all add: set_prop_def distinct_insert_index)
next
  case (Some x)
  with assms show ?thesis by (simp add: set_prop_def keys_replace_prop)
qed

lemma map_of_delete_prop: "map_of (delete_prop k ps) = (map_of ps)(k := None)"
  by (induction ps) (auto simp: delete_prop_def)

lemma keys_delete_prop: "fst ` set (delete_prop k ps) = fst ` set ps - {k}"
  by (auto simp: delete_prop_def)

lemma distinct_delete_prop: "distinct (map fst ps) \<Longrightarrow> distinct (map fst (delete_prop k ps))"
  by (simp add: delete_prop_def distinct_map_filter)

lemma define_props_Nil: "define_props t [] = t"
  by (simp add: define_props_def)

lemma define_props_Cons: "define_props t (kv # s) = define_props (set_prop t (fst kv) (snd kv)) s"
  by (simp add: define_props_def)

lemma map_of_define_props: "map_of (define_props t s) = map_of t ++ map_of (rev s)"
proof (induction s arbitrary: t)
  case Nil
  show ?case by (simp add: define_props_Nil)
next
  case (Cons kv s)
  obtain k v where kv: "kv = (k, v)" by (cases kv)
  have "map_of (define_props t (kv # s)) = map_of (set_prop t k v) ++ map_of (rev s)"
    by (simp add: define_props_Cons Cons.IH kv)
  also have "\<dots> = map_of t ++ map_of (rev (kv # s))"
  proof
    fix x
    show "(map_of (set_prop t k v) ++ map_of (rev s)) x = (map_of t ++ map_of (rev (kv # s))) x"
      by (cases "x = k") (auto simp: kv map_of_set_prop map_add_def split: option.splits)
  qed
  finally show ?case .
qed

lemma keys_define_props: "fst ` set (define_props t s) = fst ` set t \<union> fst ` set s"
proof (induction s arbitrary: t)
  case Nil
  show ?case by (simp add: define_props_Nil)
next
  case (Cons kv s)
  show ?case
    by (simp add: define_props_Cons Cons.IH keys_set_prop)
qed

lemma distinct_define_props: "distinct (map fst t) \<Longrightarrow> distinct (map fst (define_props t s))"
proof (induction s arbitrary: t)
  case Nil
  then show ?case by (simp add: define_props_Nil)
next
  case (Cons kv s)
  then show ?case
    by (simp add: define_props_Cons distinct_set_prop)
qed

lemma map_of_fold_set_prop:
  "map_of (foldl (\<lambda>t k. set_prop t k (f k)) t ks) k =
     (if k \<in> set ks then Some (f k) else map_of t k)"
  by (induction ks arbitrary: t) (simp_all add: map_of_set_prop)

lemma map_of_copy_props:
  "map_of (copy_props h emb t src) k =
     (if k \<in> fst ` set (own_entries h src) then Some (emb (lookup h src k)) else map_of t k)"
  by (simp add: copy_props_def map_of_fold_set_prop)

lemma keys_fold_set_prop:
  "fst ` set (foldl (\<lambda>t k. set_prop t k (f k)) t ks) = fst ` set t \<union> set ks"
  by (induction ks arbitrary: t) (simp_all add: keys_set_prop)

lemma keys_copy_props:
  "fst ` set (copy_props h emb t src) = fst ` set t \<union> fst ` set (own_entries h src)"
  by (simp add: copy_props_def keys_fold_set_prop)

lemma bindE_simps [simp]: "bindE (Inl e) f = Inl e" "bindE (Inr x) f = f x"
  by (simp_all add: bindE_def)

lemma bindE_Inr_iff: "bindE m f = Inr y \<longleftrightarrow> (\<exists>x. m = Inr x \<and> f x = Inr y)"
  by (cases m) simp_all

lemma put_Inr: "put ps k v = Inr ps' \<longleftrightarrow> \<not> setter_runs ps k \<and> ps' = set_prop ps k v"
  by (auto simp: put_def)

lemma put_plain: "k \<noteq> ''__proto__'' \<Longrightarrow> put ps k v = Inr (set_prop ps k v)"
  by (simp add: put_def setter_runs_def)

lemma put_present: "map_of ps k = Some x \<Longrightarrow> put ps k v = Inr (set_prop ps k v)"
  by (simp add: put_def setter_runs_def)

lemma assign_Inr: "assign t s = Inr r \<Longrightarrow> r = define_props t s"
proof (induction s arbitrary: t)
  case Nil
  then show ?case by (simp add: define_props_Nil)
next
  case (Cons kv s)
  then show ?case by (auto simp: bindE_Inr_iff put_Inr define_props_Cons)
qed

lemma assign_plain:
  "''__proto__'' \<notin> fst ` set s \<Longrightarrow> assign t s = Inr (define_props t s)"
proof (induction s arbitrary: t)
  case Nil
  show ?case by (simp add: define_props_Nil)
next
  case (Cons kv s)
  then show ?case by (auto simp: put_def setter_runs_def define_props_Cons)
qed

lemma assignKeys_Inr:
  "assignKeys f t ks = Inr r \<Longrightarrow> r = foldl (\<lambda>t k. set_prop t k (f k)) t ks"
proof (induction ks arbitrary: t)
  case Nil
  then show ?case by simp
next
  case (Cons k ks)
  then show ?case by (auto simp: bindE_Inr_iff put_Inr)
qed

lemma assignKeys_plain:
  "''__proto__'' \<notin> set ks \<Longrightarrow> assignKeys f t ks = Inr (foldl (\<lambda>t k. set_prop t k (f k)) t ks)"
proof (induction ks arbitrary: t)
  case Nil
  show ?case by simp
next
  case (Cons k ks)
  then show ?case by (auto simp: put_def setter_runs_def)
qed

lemma assignKeys_proto:
  "assignKeys f t ks = Inr r \<Longrightarrow> map_of t ''__proto__'' = None \<Longrightarrow> ''__proto__'' \<notin> set ks"
proof (induction ks arbitrary: t)
  case Nil
  show ?case by simp
next
  case (Cons k ks)
  from Cons.prems(1) obtain t' where p: "put t k (f k) = Inr t'" and r: "assignKeys f t' ks = Inr r"
    by (auto simp: bindE_Inr_iff)
  from p Cons.prems(2) have k: "k \<noteq> ''__proto__''" and t': "t' = set_prop t k (f k)"
    by (auto simp: put_Inr setter_runs_def)
  from t' k Cons.prems(2) have "map_of t' ''__proto__'' = None"
    by (simp add: map_of_set_prop)
  from Cons.IH [OF r this] k show ?case by simp
qed

lemma objectAssign_Inr: "objectAssign h emb t src = Inr r \<Longrightarrow> r = copy_props h emb t src"
  unfolding objectAssign_def copy_props_def by (rule assignKeys_Inr)

lemma objectAssign_plain:
  "''__proto__'' \<notin> fst ` set (own_entries h src) \<Longrightarrow>
   objectAssign h emb t src = Inr (copy_props h emb t src)"
  unfolding objectAssign_def copy_props_def by (rule assignKeys_plain) simp

lemma objectAssign_proto:
  "objectAssign h emb t src = Inr r \<Longrightarrow> map_of t ''__proto__'' = None \<Longrightarrow>
   ''__proto__'' \<notin> fst ` set (own_entries h src)"
  unfolding objectAssign_def using assignKeys_proto [of _ t "map fst (own_entries h src)" r] by simp

section \<open>Properties of property reads\<close>

lemma cell_at_update:
  "cell_at (h[a := c]) b = (if b = a \<and> a < length h then Some c else cell_at h b)"
  by (simp add: cell_at_def)

lemma list_update_same_cell: "cell_at h a = Some c \<Longrightarrow> h[a := c] = h"
  by (auto simp: cell_at_def split: if_splits)

lemma plain_key_fixed [simp]:
  "plain_key ''$ref''" "plain_key ''basePath''" "plain_key ''path''" "plain_key ''operationId''"
  "plain_key ''parameters''" "plain_key ''responses''" "plain_key ''consumes''"
  "plain_key ''produces''" "plain_key ''in''" "plain_key ''name''" "plain_key ''required''"
  "plain_key ''schema''" "plain_key ''headers''"
  by (simp_all add: plain_key_def objectPrototype_def)

lemma plain_key_not_proto: "plain_key k \<Longrightarrow> k \<noteq> ''__proto__''"
  by (auto simp: plain_key_def objectPrototype_def)

lemma inherited_plain: "plain_key k \<Longrightarrow> inherited r k = Inr Undefined"
  by (cases r) (auto simp: inherited_def plain_key_def objectPrototype_def)

lemma inherited_cases:
  "inherited r k = Inl Unsupported \<or> inherited r k = Inr (Builtin r k) \<or> inherited r k = Inr Undefined"
  by (simp add: inherited_def)

lemma getProp_error: "getProp h v k = Inl e \<Longrightarrow> e = TypeError \<or> e = Unsupported"
  using inherited_cases [of _ k]
  by (auto simp: getProp_def split: if_splits option.splits) (metis Inl_Inr_False sum.inject(1))+

lemma getProp_lookup: "getProp h v k = Inr x \<Longrightarrow> lookup h v k = x"
  by (simp add: lookup_def)

lemma getProp_own: "own_prop h v k = Some x \<Longrightarrow> getProp h v k = Inr x"
  by (cases v) (auto simp: getProp_def)

lemma getProp_plain:
  assumes "has_fields v" and "plain_key k"
  shows "getProp h v k = Inr (case own_prop h v k of Some x \<Rightarrow> x | None \<Rightarrow> Undefined)"
proof -
  from assms(1) have "kind_of h v \<noteq> None" and n: "v \<noteq> Undefined" "v \<noteq> Null"
    by (cases v; simp add: has_fields_def split: option.splits cell.splits)+
  then obtain r where "kind_of h v = Some r" by blast
  with assms(2) n show ?thesis
    by (simp add: getProp_def inherited_plain split: option.splits)
qed

lemma lookup_plain:
  assumes "plain_key k"
  shows "lookup h v k = (case own_prop h v k of Some x \<Rightarrow> x | None \<Rightarrow> Undefined)"
proof (cases "has_fields v")
  case True
  from getProp_plain [OF this assms] show ?thesis by (simp add: lookup_def)
next
  case False
  then have "own_prop h v k = None" "getProp h v k = Inl TypeError \<or> getProp h v k = Inl Unsupported"
    by (cases v; simp add: has_fields_def getProp_def)+
  then show ?thesis by (auto simp: lookup_def)
qed

lemma getProp_obj:
  "cell_at h a = Some (Obj ps) \<Longrightarrow>
   getProp h (Ptr a) k = (case map_of ps k of Some v \<Rightarrow> Inr v | None \<Rightarrow> inherited ObjectR k)"
  by (simp add: getProp_def split: option.splits)



lemma readable_iff: "readable h v k \<longleftrightarrow> (\<exists>x. getProp h v k = Inr x)"
proof (cases "own_prop h v k")
  case (Some x)
  then show ?thesis using getProp_own [OF Some] by (simp add: readable_def)
next
  case None
  show ?thesis
  proof (cases "kind_of h v")
    case n: None
    then have "getProp h v k = Inl TypeError \<or> getProp h v k = Inl Unsupported"
      using None by (auto simp: getProp_def)
    with None n show ?thesis by (auto simp: readable_def)
  next
    case (Some r)
    then have "v \<noteq> Undefined" "v \<noteq> Null" by auto
    with None Some show ?thesis
      by (auto simp: readable_def getProp_def inherited_def)
  qed
qed

lemma vals_index_entries: "snd ` set (index_entries xs) = set xs"
proof -
  have "map snd (index_entries xs) = xs"
    by (simp add: index_entries_def)
  then have "set (map snd (index_entries xs)) = set xs" by simp
  then show ?thesis by (simp only: set_map)
qed

lemma own_prop_value:
  "own_prop h v k = Some x \<Longrightarrow> x \<in> snd ` set (own_entries h v) \<or> (\<forall>a. x \<noteq> Ptr a)"
proof (cases v)
  case (Str s)
  assume "own_prop h v k = Some x"
  with Str have "own_indexed (map (\<lambda>c. Str [c]) s) k = Some x" by simp
  then have "\<forall>a. x \<noteq> Ptr a"
    by (auto simp: own_indexed_def split: if_splits option.splits)
  then show ?thesis ..
next
  case (Ptr a)
  assume o: "own_prop h v k = Some x"
  show ?thesis
  proof (cases "cell_at h a")
    case None
    with o Ptr show ?thesis by simp
  next
    case (Some c)
    show ?thesis
    proof (cases c)
      case (Obj ps)
      with o Ptr Some have "map_of ps k = Some x" by simp
      then have "x \<in> snd ` set ps" by (auto dest!: map_of_SomeD intro: rev_image_eqI)
      with Ptr Some Obj show ?thesis by simp
    next
      case (Arr xs)
      with o Ptr Some have i: "own_indexed xs k = Some x" by simp
      show ?thesis
      proof (cases "k = ''length''")
        case True
        with i show ?thesis by (auto simp: own_indexed_def)
      next
        case False
        with i obtain j where "j < length xs" "x = xs ! j"
          by (auto simp: own_indexed_def split: option.splits if_splits)
        then have "x \<in> set xs" by simp
        then have "x \<in> snd ` set (index_entries xs)"
          by (simp only: vals_index_entries)
        with Ptr Some Arr show ?thesis by simp
      qed
    qed
  qed
qed simp_all

lemma lookup_value:
  "lookup h v k \<in> snd ` set (own_entries h v) \<or> (\<forall>a. lookup h v k \<noteq> Ptr a)"
proof (cases "getProp h v k")
  case (Inl e)
  then show ?thesis by (simp add: lookup_def)
next
  case (Inr x)
  then have l: "lookup h v k = x" by (rule getProp_lookup)
  show ?thesis
  proof (cases "own_prop h v k")
    case (Some y)
    with Inr getProp_own [OF Some] have "x = y" by simp
    with own_prop_value [OF Some] l show ?thesis by simp
  next
    case None
    with Inr have "\<exists>r. inherited r k = Inr x"
      by (auto simp: getProp_def split: if_splits option.splits)
    then have "\<forall>a. x \<noteq> Ptr a"
      by (auto simp: inherited_def split: if_splits)
    with l show ?thesis by simp
  qed
qed



section \<open>How the resolver changes the state\<close>

lemma mapItems_rule_acc:
  assumes step: "\<And>s x y s'. x \<in> set xs0 \<Longrightarrow> I s \<Longrightarrow> f s x = Ok y s' \<Longrightarrow> I s' \<and> Q s' y"
      and stable: "\<And>s x y s' z. x \<in> set xs0 \<Longrightarrow> I s \<Longrightarrow> f s x = Ok y s' \<Longrightarrow> Q s z \<Longrightarrow> Q s' z"
  shows "set xs \<subseteq> set xs0 \<Longrightarrow> I st \<Longrightarrow> \<forall>z \<in> set acc. Q st z \<Longrightarrow> mapItems f st xs = Ok ys st' \<Longrightarrow>
         I st' \<and> (\<forall>y \<in> set (acc @ ys). Q st' y) \<and> length ys = length xs"
proof (induction xs arbitrary: st ys acc)
  case Nil
  then show ?case by simp
next
  case (Cons x xs)
  from Cons.prems(4) obtain y s1 zs where
    fx: "f st x = Ok y s1" and rest: "mapItems f s1 xs = Ok zs st'" and ys: "ys = y # zs"
    by (auto split: outcome.splits)
  from Cons.prems(1) have x: "x \<in> set xs0" and sub: "set xs \<subseteq> set xs0" by simp_all
  from step [OF x Cons.prems(2) fx] have i1: "I s1" and q1: "Q s1 y" by simp_all
  have acc1: "\<forall>z \<in> set (acc @ [y]). Q s1 z"
  proof
    fix z assume "z \<in> set (acc @ [y])"
    then have "z \<in> set acc \<or> z = y" by auto
    then show "Q s1 z"
    proof
      assume "z \<in> set acc"
      with Cons.prems(3) have "Q st z" by simp
      from stable [OF x Cons.prems(2) fx this] show ?thesis .
    next
      assume "z = y"
      with q1 show ?thesis by simp
    qed
  qed
  from Cons.IH [OF sub i1 acc1 rest]
  have "I st'" "\<forall>y \<in> set ((acc @ [y]) @ zs). Q st' y" "length zs = length xs"
    by simp_all
  then show ?case unfolding ys by simp
qed

lemma mapItems_rule:
  assumes "mapItems f st xs = Ok ys st'"
      and "I st"
      and "\<And>s x y s'. x \<in> set xs \<Longrightarrow> I s \<Longrightarrow> f s x = Ok y s' \<Longrightarrow> I s' \<and> Q s' y"
      and "\<And>s x y s' z. x \<in> set xs \<Longrightarrow> I s \<Longrightarrow> f s x = Ok y s' \<Longrightarrow> Q s z \<Longrightarrow> Q s' z"
  shows "I st' \<and> (\<forall>y \<in> set ys. Q st' y) \<and> length ys = length xs"
  using mapItems_rule_acc [of xs I f Q xs st "[]" ys st', OF assms(3,4) _ assms(2) _ assms(1)]
  by simp

lemma forIn_rule_sub:
  assumes step: "\<And>s k v r s'. k \<in> set ks0 \<Longrightarrow> I s \<Longrightarrow> map_of (obj_props (store s) a) k = Some v \<Longrightarrow>
             f s v = Ok r s' \<Longrightarrow> I (writeProp a k r s')"
  shows "set ks \<subseteq> set ks0 \<Longrightarrow> I st \<Longrightarrow> forIn f a st ks = Ok u st' \<Longrightarrow> I st'"
proof (induction ks arbitrary: st)
  case Nil
  then show ?case by simp
next
  case (Cons k ks)
  from Cons.prems(1) have k: "k \<in> set ks0" and sub: "set ks \<subseteq> set ks0" by simp_all
  show ?case
  proof (cases "map_of (obj_props (store st) a) k")
    case None
    with Cons.prems(3) have "forIn f a st ks = Ok u st'" by simp
    from Cons.IH [OF sub Cons.prems(2) this] show ?thesis .
  next
    case (Some v)
    with Cons.prems(3) obtain r s1 where
      fv: "f st v = Ok r s1" and rest: "forIn f a (writeProp a k r s1) ks = Ok u st'"
      by (auto split: outcome.splits if_splits)
    from step [OF k Cons.prems(2) Some fv] have "I (writeProp a k r s1)" .
    from Cons.IH [OF sub this rest] show ?thesis .
  qed
qed

lemma forIn_rule:
  assumes "forIn f a st ks = Ok u st'"
      and "I st"
      and "\<And>s k v r s'. k \<in> set ks \<Longrightarrow> I s \<Longrightarrow> map_of (obj_props (store s) a) k = Some v \<Longrightarrow>
             f s v = Ok r s' \<Longrightarrow> I (writeProp a k r s')"
  shows "I st'"
  using forIn_rule_sub [of ks I a f ks st u st', OF assms(3) _ assms(2) assms(1)]
  by simp


lemma cell_at_append:
  "cell_at (h @ [c]) a =
     (if a < length h then cell_at h a else if a = length h then Some c else None)"
  by (simp add: cell_at_def nth_append)

lemma cell_at_bound: "cell_at h a = Some c \<Longrightarrow> a < length h"
  by (simp add: cell_at_def split: if_splits)

lemma is_obj_bound: "is_obj h a \<Longrightarrow> a < length h"
  by (auto simp: is_obj_def split: option.splits dest: cell_at_bound)

lemma is_obj_props: "is_obj h a \<longleftrightarrow> cell_at h a = Some (Obj (obj_props h a))"
  by (auto simp: is_obj_def obj_props_def split: option.splits cell.splits)

lemma evolvesI:
  assumes "length (store st) \<le> length (store st')"
      and "dataCache st \<subseteq> dataCache st'"
      and "\<And>a xs. cell_at (store st) a = Some (Arr xs) \<Longrightarrow> cell_at (store st') a = Some (Arr xs)"
      and "\<And>a. is_obj (store st) a \<Longrightarrow> is_obj (store st') a"
      and "\<And>a. a \<in> dataCache st \<Longrightarrow> a < length (store st) \<Longrightarrow>
             cell_at (store st') a = cell_at (store st) a"
      and "\<And>a. length (store st) \<le> a \<Longrightarrow> is_obj (store st') a \<Longrightarrow> a \<in> dataCache st'"
      and "\<And>a. a < length (store st) \<Longrightarrow> a \<notin> dataCache st' \<Longrightarrow>
             obj_props (store st') a = obj_props (store st) a \<or>
             obj_props (store st') a = delete_prop ''$ref'' (obj_props (store st) a)"
  shows "evolves st st'"
  unfolding evolves_def using assms by blast

lemma evolvesD:
  assumes "evolves st st'"
  shows "length (store st) \<le> length (store st')"
    and "dataCache st \<subseteq> dataCache st'"
    and "\<And>a xs. cell_at (store st) a = Some (Arr xs) \<Longrightarrow> cell_at (store st') a = Some (Arr xs)"
    and "\<And>a. is_obj (store st) a \<Longrightarrow> is_obj (store st') a"
    and "\<And>a. a \<in> dataCache st \<Longrightarrow> a < length (store st) \<Longrightarrow>
             cell_at (store st') a = cell_at (store st) a"
    and "\<And>a. length (store st) \<le> a \<Longrightarrow> is_obj (store st') a \<Longrightarrow> a \<in> dataCache st'"
    and "\<And>a. a < length (store st) \<Longrightarrow> a \<notin> dataCache st' \<Longrightarrow>
             obj_props (store st') a = obj_props (store st) a \<or>
             obj_props (store st') a = delete_prop ''$ref'' (obj_props (store st) a)"
  using assms unfolding evolves_def by blast+

lemma evolves_refl: "evolves st st"
  by (rule evolvesI) (auto dest: is_obj_bound)

lemma delete_prop_idem: "delete_prop k (delete_prop k ps) = delete_prop k ps"
  by (simp add: delete_prop_def)

lemma evolves_trans:
  assumes 1: "evolves st st'" and 2: "evolves st' st''"
  shows "evolves st st''"
proof (rule evolvesI)
  show "length (store st) \<le> length (store st'')"
    using evolvesD(1) [OF 1] evolvesD(1) [OF 2] by simp
  show "dataCache st \<subseteq> dataCache st''"
    using evolvesD(2) [OF 1] evolvesD(2) [OF 2] by blast
next
  fix a xs assume "cell_at (store st) a = Some (Arr xs)"
  then show "cell_at (store st'') a = Some (Arr xs)"
    using evolvesD(3) [OF 1] evolvesD(3) [OF 2] by blast
next
  fix a assume "is_obj (store st) a"
  then show "is_obj (store st'') a"
    using evolvesD(4) [OF 1] evolvesD(4) [OF 2] by blast
next
  fix a assume a: "a \<in> dataCache st" "a < length (store st)"
  then have "cell_at (store st') a = cell_at (store st) a"
    using evolvesD(5) [OF 1] by blast
  moreover from a have "a \<in> dataCache st'" "a < length (store st')"
    using evolvesD(1,2) [OF 1] by auto
  then have "cell_at (store st'') a = cell_at (store st') a"
    using evolvesD(5) [OF 2] by blast
  ultimately show "cell_at (store st'') a = cell_at (store st) a" by simp
next
  fix a assume a: "length (store st) \<le> a" "is_obj (store st'') a"
  show "a \<in> dataCache st''"
  proof (cases "a < length (store st')")
    case False
    with a(2) show ?thesis using evolvesD(6) [OF 2, of a] by simp
  next
    case True
    have "is_obj (store st') a"
    proof (cases "cell_at (store st') a")
      case None
      with True show ?thesis by (simp add: cell_at_def)
    next
      case (Some c)
      show ?thesis
      proof (cases c)
        case (Obj ps)
        with Some show ?thesis by (simp add: is_obj_def)
      next
        case (Arr xs)
        with Some have "cell_at (store st'') a = Some (Arr xs)"
          using evolvesD(3) [OF 2] by blast
        with a(2) show ?thesis by (simp add: is_obj_def)
      qed
    qed
    with a(1) have "a \<in> dataCache st'" using evolvesD(6) [OF 1, of a] by simp
    then show ?thesis using evolvesD(2) [OF 2] by blast
  qed
next
  fix a assume a: "a < length (store st)" "a \<notin> dataCache st''"
  then have a': "a < length (store st')" "a \<notin> dataCache st'"
    using evolvesD(1) [OF 1] evolvesD(2) [OF 2] by auto
  from evolvesD(7) [OF 1, OF a(1) a'(2)] evolvesD(7) [OF 2, OF a'(1) a(2)]
  show "obj_props (store st'') a = obj_props (store st) a \<or>
        obj_props (store st'') a = delete_prop ''$ref'' (obj_props (store st) a)"
    by (auto simp: delete_prop_idem)
qed

lemma is_obj_update:
  "is_obj (h[a := Obj ps]) b \<longleftrightarrow> (if b = a then a < length h else is_obj h b)"
  by (auto simp: is_obj_def cell_at_def)

lemma is_obj_append_obj:
  "is_obj (h @ [Obj ps]) b \<longleftrightarrow> is_obj h b \<or> b = length h"
  by (auto simp: is_obj_def cell_at_def nth_append split: cell.splits)

lemma is_obj_append_arr:
  "is_obj (h @ [Arr xs]) b \<longleftrightarrow> is_obj h b"
  by (auto simp: is_obj_def cell_at_def nth_append split: cell.splits)

lemma obj_props_update:
  "obj_props (h[a := Obj ps]) b = (if b = a \<and> a < length h then ps else obj_props h b)"
  by (simp add: obj_props_def cell_at_update)

lemma obj_props_append:
  "b < length h \<Longrightarrow> obj_props (h @ [c]) b = obj_props h b"
  by (simp add: obj_props_def cell_at_append)

lemma obj_props_outside: "length h \<le> b \<Longrightarrow> obj_props h b = []"
  by (simp add: obj_props_def cell_at_def)

lemma evolves_alloc_arr: "evolves st (st\<lparr>store := store st @ [Arr ys]\<rparr>)"
proof (rule evolvesI)
  fix a assume "length (store st) \<le> a" "is_obj (store (st\<lparr>store := store st @ [Arr ys]\<rparr>)) a"
  then show "a \<in> dataCache (st\<lparr>store := store st @ [Arr ys]\<rparr>)"
    by (auto simp: is_obj_append_arr dest: is_obj_bound)
qed (auto simp: cell_at_append is_obj_append_arr obj_props_append dest: cell_at_bound)

lemma followRef_cases:
  assumes "followRef h spec a = Inr (a', h1)"
  shows "(a' = a \<and> h1 = h \<and> \<not> truthy (lookup h (Ptr a) ''$ref'')) \<or>
         (\<exists>ref target. lookup h (Ptr a) ''$ref'' = Str ref \<and> ref \<noteq> [] \<and>
            resolveRef h ref spec = Inr target \<and> a' = length h \<and>
            h1 = h[a := Obj (delete_prop ''$ref'' (obj_props h a))] @
                 [Obj (copy_props (h[a := Obj (delete_prop ''$ref'' (obj_props h a))]) (\<lambda>v. v)
                    (copy_props (h[a := Obj (delete_prop ''$ref'' (obj_props h a))]) (\<lambda>v. v) [] target)
                    (Ptr a))])"
proof (cases "truthy (lookup h (Ptr a) ''$ref'')")
  case False
  with assms show ?thesis by (simp add: followRef_def Let_def)
next
  case True
  with assms obtain ref where r: "lookup h (Ptr a) ''$ref'' = Str ref"
    by (cases "lookup h (Ptr a) ''$ref''") (auto simp: followRef_def Let_def)
  with True have ne: "ref \<noteq> []" by simp
  from assms True r obtain target where t: "resolveRef h ref spec = Inr target"
    by (cases "resolveRef h ref spec") (auto simp: followRef_def Let_def)
  let ?h0 = "h[a := Obj (delete_prop ''$ref'' (obj_props h a))]"
  from assms True r t obtain t1 merged where
    t1: "objectAssign ?h0 (\<lambda>v. v) [] target = Inr t1" and
    m: "objectAssign ?h0 (\<lambda>v. v) t1 (Ptr a) = Inr merged" and
    res: "a' = length h" "h1 = ?h0 @ [Obj merged]"
    by (auto simp: followRef_def Let_def bindE_Inr_iff)
  from objectAssign_Inr [OF t1] objectAssign_Inr [OF m]
  have "merged = copy_props ?h0 (\<lambda>v. v) (copy_props ?h0 (\<lambda>v. v) [] target) (Ptr a)"
    by simp
  with r ne t res show ?thesis by blast
qed

lemma evolves_follow:
  assumes obj: "is_obj (store st) a" and nc: "a \<notin> dataCache st"
      and f: "followRef (store st) spec a = Inr (a', h1)"
  shows "evolves st \<lparr>store = h1, dataCache = insert a' (dataCache st)\<rparr> \<and> is_obj h1 a' \<and>
         (a' = a \<or> a' = length (store st))"
proof -
  from obj have bound: "a < length (store st)" by (rule is_obj_bound)
  from followRef_cases [OF f] show ?thesis
  proof
    assume "a' = a \<and> h1 = store st \<and> \<not> truthy (lookup (store st) (Ptr a) ''$ref'')"
    then have eq: "a' = a" "h1 = store st" by simp_all
    have "evolves st \<lparr>store = store st, dataCache = insert a (dataCache st)\<rparr>"
      by (rule evolvesI) (auto dest: is_obj_bound)
    with eq obj show ?thesis by simp
  next
    assume "\<exists>ref target. lookup (store st) (Ptr a) ''$ref'' = Str ref \<and> ref \<noteq> [] \<and>
            resolveRef (store st) ref spec = Inr target \<and> a' = length (store st) \<and>
            h1 = (store st)[a := Obj (delete_prop ''$ref'' (obj_props (store st) a))] @
                 [Obj (copy_props ((store st)[a := Obj (delete_prop ''$ref'' (obj_props (store st) a))]) (\<lambda>v. v)
                    (copy_props ((store st)[a := Obj (delete_prop ''$ref'' (obj_props (store st) a))]) (\<lambda>v. v) [] target)
                    (Ptr a))]"
    then obtain m where a': "a' = length (store st)"
      and h1: "h1 = (store st)[a := Obj (delete_prop ''$ref'' (obj_props (store st) a))] @ [Obj m]"
      by blast
    let ?h0 = "(store st)[a := Obj (delete_prop ''$ref'' (obj_props (store st) a))]"
    let ?st1 = "\<lparr>store = ?h0 @ [Obj m], dataCache = insert (length (store st)) (dataCache st)\<rparr>"
    have len: "length ?h0 = length (store st)" by simp
    have "evolves st ?st1"
    proof (rule evolvesI)
      show "length (store st) \<le> length (store ?st1)" by simp
      show "dataCache st \<subseteq> dataCache ?st1" by auto
    next
      fix b xs assume c: "cell_at (store st) b = Some (Arr xs)"
      then have "b < length (store st)" by (rule cell_at_bound)
      moreover from c obj have "b \<noteq> a" by (auto simp: is_obj_def)
      ultimately show "cell_at (store ?st1) b = Some (Arr xs)"
        using c by (simp add: cell_at_append cell_at_update)
    next
      fix b assume "is_obj (store st) b"
      then show "is_obj (store ?st1) b"
        using bound by (auto simp: is_obj_append_obj is_obj_update)
    next
      fix b assume "b \<in> dataCache st" "b < length (store st)"
      with nc show "cell_at (store ?st1) b = cell_at (store st) b"
        by (auto simp: cell_at_append cell_at_update)
    next
      fix b assume "length (store st) \<le> b" "is_obj (store ?st1) b"
      then show "b \<in> dataCache ?st1"
        using bound by (auto simp: is_obj_append_obj is_obj_update dest: is_obj_bound)
    next
      fix b assume "b < length (store st)" "b \<notin> dataCache ?st1"
      then show "obj_props (store ?st1) b = obj_props (store st) b \<or>
        obj_props (store ?st1) b = delete_prop ''$ref'' (obj_props (store st) b)"
        using bound by (simp add: obj_props_append obj_props_update)
    qed
    moreover have "is_obj (?h0 @ [Obj m]) (length (store st))"
      by (simp add: is_obj_append_obj)
    ultimately show ?thesis using a' h1 by simp
  qed
qed

lemma evolves_write:
  assumes e: "evolves st s" and obj: "is_obj (store s) a" and c: "a \<in> dataCache s"
      and fresh: "a \<notin> dataCache st \<or> length (store st) \<le> a"
  shows "evolves st (writeProp a k r s)"
proof (rule evolvesI)
  from obj have bound: "a < length (store s)" by (rule is_obj_bound)
  show "length (store st) \<le> length (store (writeProp a k r s))"
    using evolvesD(1) [OF e] by (simp add: writeProp_def)
  show "dataCache st \<subseteq> dataCache (writeProp a k r s)"
    using evolvesD(2) [OF e] by (simp add: writeProp_def)
  {
    fix b xs assume "cell_at (store st) b = Some (Arr xs)"
    then have "cell_at (store s) b = Some (Arr xs)" using evolvesD(3) [OF e] by blast
    moreover with obj have "b \<noteq> a" by (auto simp: is_obj_def)
    ultimately show "cell_at (store (writeProp a k r s)) b = Some (Arr xs)"
      by (simp add: writeProp_def cell_at_update)
  next
    fix b assume "is_obj (store st) b"
    then have "is_obj (store s) b" using evolvesD(4) [OF e] by blast
    then show "is_obj (store (writeProp a k r s)) b"
      using bound by (simp add: writeProp_def is_obj_update)
  next
    fix b assume b: "b \<in> dataCache st" "b < length (store st)"
    with fresh have "b \<noteq> a" by auto
    then show "cell_at (store (writeProp a k r s)) b = cell_at (store st) b"
      using evolvesD(5) [OF e b] by (simp add: writeProp_def cell_at_update)
  next
    fix b assume b: "length (store st) \<le> b" "is_obj (store (writeProp a k r s)) b"
    show "b \<in> dataCache (writeProp a k r s)"
    proof (cases "b = a")
      case True
      with c show ?thesis by (simp add: writeProp_def)
    next
      case False
      with b(2) have "is_obj (store s) b" by (simp add: writeProp_def is_obj_update)
      with b(1) show ?thesis using evolvesD(6) [OF e, of b] by (simp add: writeProp_def)
    qed
  next
    fix b assume b: "b < length (store st)" "b \<notin> dataCache (writeProp a k r s)"
    then have nb: "b \<notin> dataCache s" by (simp add: writeProp_def)
    with c have "b \<noteq> a" by auto
    then have "obj_props (store (writeProp a k r s)) b = obj_props (store s) b"
      by (simp add: writeProp_def obj_props_update)
    with evolvesD(7) [OF e b(1) nb]
    show "obj_props (store (writeProp a k r s)) b = obj_props (store st) b \<or>
        obj_props (store (writeProp a k r s)) b = delete_prop ''$ref'' (obj_props (store st) b)"
      by simp
  }
qed

lemma resolveRefs_Suc_cases:
  assumes "resolveRefs (Suc n) st spec data = Ok r st'"
  obtains
    (unchanged) "r = data" and "st' = st" and
      "\<not> truthy data \<or> has (dataCache st) data \<or> (\<forall>a. data \<noteq> Ptr a) \<or>
       (\<exists>a. data = Ptr a \<and> cell_at (store st) a = None)"
  | (array) a xs ys st1 where "data = Ptr a" and "a \<notin> dataCache st" and
      "cell_at (store st) a = Some (Arr xs)" and
      "mapItems (\<lambda>s v. resolveRefs n s spec v) st xs = Ok ys st1" and
      "r = Ptr (length (store st1))" and "st' = st1\<lparr>store := store st1 @ [Arr ys]\<rparr>"
  | (object) a ps a' h1 u where "data = Ptr a" and "a \<notin> dataCache st" and
      "cell_at (store st) a = Some (Obj ps)" and
      "followRef (store st) spec a = Inr (a', h1)" and
      "forIn (\<lambda>s v. resolveRefs n s spec v) a'
         \<lparr>store = h1, dataCache = insert a' (dataCache st)\<rparr> (map fst (obj_props h1 a')) = Ok u st'" and
      "r = Ptr a'"
proof (cases "\<not> truthy data \<or> has (dataCache st) data")
  case True
  with assms have "r = data" "st' = st" by simp_all
  with True show ?thesis by (intro unchanged) auto
next
  case False
  show ?thesis
  proof (cases data)
    case (Ptr a)
    with False have nc: "a \<notin> dataCache st" by simp
    show ?thesis
    proof (cases "cell_at (store st) a")
      case None
      with assms Ptr False have "r = data" "st' = st" by simp_all
      with None Ptr show ?thesis by (intro unchanged) auto
    next
      case (Some c)
      show ?thesis
      proof (cases c)
        case (Arr xs)
        with assms Ptr False Some obtain ys st1 where
          "mapItems (\<lambda>s v. resolveRefs n s spec v) st xs = Ok ys st1"
          "r = Ptr (length (store st1))" "st' = st1\<lparr>store := store st1 @ [Arr ys]\<rparr>"
          by (auto split: outcome.splits)
        with Ptr nc Some Arr show ?thesis by (intro array) auto
      next
        case (Obj ps)
        with assms Ptr False Some obtain a' h1 u where
          "followRef (store st) spec a = Inr (a', h1)"
          "forIn (\<lambda>s v. resolveRefs n s spec v) a'
             \<lparr>store = h1, dataCache = insert a' (dataCache st)\<rparr> (map fst (obj_props h1 a')) = Ok u st'"
          "r = Ptr a'"
          by (auto split: outcome.splits sum.splits)
        with Ptr nc Some Obj show ?thesis by (intro object) auto
      qed
    qed
  qed (use assms False in \<open>auto intro: unchanged\<close>)
qed

lemma resolveRefs_evolves:
  "resolveRefs n st spec data = Ok r st' \<Longrightarrow> evolves st st'"
proof (induction n arbitrary: st data r st')
  case 0
  then show ?case by simp
next
  case (Suc n)
  from Suc.prems show ?case
  proof (cases rule: resolveRefs_Suc_cases)
    case unchanged
    then show ?thesis by (simp add: evolves_refl)
  next
    case (array a xs ys st1)
    have "evolves st st1 \<and> (\<forall>y \<in> set ys. True) \<and> length ys = length xs"
    proof (rule mapItems_rule [OF array(4), where I = "\<lambda>s. evolves st s" and Q = "\<lambda>s y. True"])
      show "evolves st st" by (rule evolves_refl)
    next
      fix s x y s'
      assume "evolves st s" "resolveRefs n s spec x = Ok y s'"
      then show "evolves st s' \<and> True"
        using Suc.IH evolves_trans by blast
    qed simp
    then have "evolves st st1" by simp
    then show ?thesis
      unfolding array(6) using evolves_alloc_arr evolves_trans by blast
  next
    case (object a ps a' h1 u)
    let ?st1 = "\<lparr>store = h1, dataCache = insert a' (dataCache st)\<rparr>"
    from object(3) have obj: "is_obj (store st) a" by (simp add: is_obj_def)
    from evolves_follow [OF obj object(2,4)]
    have e1: "evolves st ?st1" and o1: "is_obj h1 a'" and fresh: "a' = a \<or> a' = length (store st)"
      by simp_all
    from fresh object(2) have fresh': "a' \<notin> dataCache st \<or> length (store st) \<le> a'" by auto
    let ?I = "\<lambda>s. evolves st s \<and> is_obj (store s) a' \<and> a' \<in> dataCache s"
    have "?I st'"
    proof (rule forIn_rule [OF object(5), where I = ?I])
      show "?I ?st1" using e1 o1 by simp
    next
      fix s k v r s'
      assume i: "?I s" and call: "resolveRefs n s spec v = Ok r s'"
      from Suc.IH [OF call] have e: "evolves s s'" .
      with i have e': "evolves st s'" using evolves_trans by blast
      from i e have o: "is_obj (store s') a'" and c: "a' \<in> dataCache s'"
        using evolvesD(4) [OF e] evolvesD(2) [OF e] by auto
      from evolves_write [OF e' o c fresh'] have "evolves st (writeProp a' k r s')" .
      moreover from o have "is_obj (store (writeProp a' k r s')) a'"
        by (auto simp: writeProp_def is_obj_update dest: is_obj_bound)
      moreover from c have "a' \<in> dataCache (writeProp a' k r s')"
        by (simp add: writeProp_def)
      ultimately show "?I (writeProp a' k r s')" by simp
    qed
    then show ?thesis by simp
  qed
qed

section \<open>Closed stores\<close>

lemma closed_mono: "closed h v \<Longrightarrow> length h \<le> length h' \<Longrightarrow> closed h' v"
  by (cases v) (simp_all add: closed_def)

lemma closed_nonptr [simp]:
  "closed h Undefined" "closed h Null" "closed h (Bool b)" "closed h (Num n)" "closed h NaN"
  "closed h (Str s)" "closed h (Double s)" "closed h (Builtin r k)"
  by (simp_all add: closed_def)

lemma closed_Ptr [simp]: "closed h (Ptr a) \<longleftrightarrow> a < length h"
  by (simp add: closed_def)

lemma closed_cell_mono: "closed_cell h c \<Longrightarrow> length h \<le> length h' \<Longrightarrow> closed_cell h' c"
  by (cases c) (auto simp: closed_cell_def list_all_iff intro: closed_mono)

lemma closed_storeD: "closed_store h \<Longrightarrow> cell_at h a = Some c \<Longrightarrow> closed_cell h c"
  by (auto simp: closed_store_def list_all_iff cell_at_def split: if_splits)

lemma closed_store_append:
  assumes "closed_store h" and "closed_cell (h @ [c]) c"
  shows "closed_store (h @ [c])"
proof -
  have "closed_cell (h @ [c]) d" if "d \<in> set h" for d
    using assms(1) that by (auto simp: closed_store_def list_all_iff intro: closed_cell_mono)
  with assms(2) show ?thesis
    by (auto simp: closed_store_def list_all_iff)
qed

lemma closed_store_update:
  assumes "closed_store h" and "closed_cell h c"
  shows "closed_store (h[a := c])"
proof -
  have "closed_cell (h[a := c]) d" if "d \<in> set (h[a := c])" for d
  proof -
    from that have "d = c \<or> d \<in> set h" by (auto dest: set_update_subset_insert [THEN subsetD])
    then have "closed_cell h d"
      using assms by (auto simp: closed_store_def list_all_iff)
    then show ?thesis by (rule closed_cell_mono) simp
  qed
  then show ?thesis by (auto simp: closed_store_def list_all_iff)
qed

lemma closed_not_ptr: "\<forall>a. v \<noteq> Ptr a \<Longrightarrow> closed h v"
  by (cases v) (simp_all add: closed_def)

lemma closed_own_entries:
  assumes "closed_store h" and "x \<in> snd ` set (own_entries h v)"
  shows "closed h x"
proof (cases v)
  case (Str s)
  with assms(2) have "x \<in> set (map (\<lambda>c. Str [c]) s)"
    by (simp add: vals_index_entries)
  then have "\<forall>a. x \<noteq> Ptr a" by auto
  then show ?thesis by (rule closed_not_ptr)
next
  case (Ptr a)
  show ?thesis
  proof (cases "cell_at h a")
    case None
    with Ptr assms(2) show ?thesis by simp
  next
    case (Some c)
    from closed_storeD [OF assms(1) Some] have cc: "closed_cell h c" .
    show ?thesis
    proof (cases c)
      case (Obj ps)
      with Ptr Some assms(2) have "x \<in> snd ` set ps" by simp
      with cc Obj show ?thesis by (auto simp: closed_cell_def list_all_iff)
    next
      case (Arr xs)
      with Ptr Some assms(2) have "x \<in> set xs" by (simp add: vals_index_entries)
      with cc Arr show ?thesis by (auto simp: closed_cell_def list_all_iff)
    qed
  qed
qed (use assms(2) in simp_all)

lemma closed_lookup:
  assumes "closed_store h"
  shows "closed h (lookup h v k)"
  using lookup_value [of h v k] closed_own_entries [OF assms] closed_not_ptr
  by blast

lemma set_replace_prop: "set (replace_prop k v ps) \<subseteq> insert (k, v) (set ps)"
  by (induction ps) (auto split: if_splits)

lemma vals_replace_prop: "snd ` set (replace_prop k v ps) \<subseteq> insert v (snd ` set ps)"
proof -
  have "snd ` set (replace_prop k v ps) \<subseteq> snd ` insert (k, v) (set ps)"
    by (rule image_mono) (rule set_replace_prop)
  then show ?thesis by simp
qed

lemma vals_set_prop: "snd ` set (set_prop ps k v) \<subseteq> insert v (snd ` set ps)"
proof (cases "map_of ps k")
  case (Some x)
  then show ?thesis using vals_replace_prop [of k v ps] by (simp add: set_prop_def)
next
  case None
  show ?thesis
  proof (cases "parse_index k")
    case n: None
    with None show ?thesis by (auto simp: set_prop_def)
  next
    case (Some i)
    obtain xs ys where "ps = xs @ ys" "insert_index i k v ps = xs @ (k, v) # ys"
      using insert_index_split [of ps i k v] by blast
    then have "snd ` set (insert_index i k v ps) \<subseteq> insert v (snd ` set ps)"
      by auto
    with None Some show ?thesis by (simp add: set_prop_def)
  qed
qed

lemma vals_copy_props:
  assumes "\<forall>x \<in> snd ` set t. P x" and "\<And>k. P (lookup h src k)"
  shows "\<forall>x \<in> snd ` set (copy_props h (\<lambda>v. v) t src). P x"
proof -
  have "\<forall>x \<in> snd ` set (foldl (\<lambda>t k. set_prop t k (lookup h src k)) t ks). P x" for ks
    using assms(1)
  proof (induction ks arbitrary: t)
    case Nil
    then show ?case by simp
  next
    case (Cons k ks)
    have "\<forall>x \<in> insert (lookup h src k) (snd ` set t). P x"
      using Cons.prems assms(2) [of k] by simp
    then have "\<forall>x \<in> snd ` set (set_prop t k (lookup h src k)). P x"
      using vals_set_prop [of t k "lookup h src k"] by (meson subsetD)
    from Cons.IH [OF this] show ?case by simp
  qed
  then show ?thesis by (simp add: copy_props_def)
qed

lemma closed_cell_Obj: "closed_cell h (Obj ps) \<longleftrightarrow> (\<forall>x \<in> snd ` set ps. closed h x)"
  by (auto simp: closed_cell_def list_all_iff)

lemma closed_cell_Arr: "closed_cell h (Arr xs) \<longleftrightarrow> (\<forall>x \<in> set xs. closed h x)"
  by (simp add: closed_cell_def list_all_iff)

lemma closed_followRef:
  assumes cs: "closed_store h" and cell: "cell_at h a = Some (Obj ps)"
      and f: "followRef h spec a = Inr (a', h1)"
  shows "closed_store h1 \<and> a' < length h1 \<and> length h \<le> length h1"
proof -
  from cell have bound: "a < length h" by (rule cell_at_bound)
  from cell have ps: "obj_props h a = ps" by (simp add: obj_props_def)
  from followRef_cases [OF f] show ?thesis
  proof
    assume "a' = a \<and> h1 = h \<and> \<not> truthy (lookup h (Ptr a) ''$ref'')"
    with cs bound show ?thesis by simp
  next
    let ?h0 = "h[a := Obj (delete_prop ''$ref'' ps)]"
    assume "\<exists>ref target. lookup h (Ptr a) ''$ref'' = Str ref \<and> ref \<noteq> [] \<and>
            resolveRef h ref spec = Inr target \<and> a' = length h \<and>
            h1 = h[a := Obj (delete_prop ''$ref'' (obj_props h a))] @
                 [Obj (copy_props (h[a := Obj (delete_prop ''$ref'' (obj_props h a))]) (\<lambda>v. v)
                    (copy_props (h[a := Obj (delete_prop ''$ref'' (obj_props h a))]) (\<lambda>v. v) [] target)
                    (Ptr a))]"
    then obtain target where a': "a' = length h" and
      h1: "h1 = ?h0 @ [Obj (copy_props ?h0 (\<lambda>v. v) (copy_props ?h0 (\<lambda>v. v) [] target) (Ptr a))]"
      unfolding ps by blast
    from closed_storeD [OF cs cell] have "\<forall>x \<in> snd ` set ps. closed h x"
      by (simp add: closed_cell_Obj)
    then have "closed_cell h (Obj (delete_prop ''$ref'' ps))"
      by (auto simp: closed_cell_Obj delete_prop_def)
    with cs have cs0: "closed_store ?h0" by (rule closed_store_update)
    have "\<forall>x \<in> snd ` set (copy_props ?h0 (\<lambda>v. v) [] target). closed ?h0 x"
      by (rule vals_copy_props) (simp_all add: closed_lookup [OF cs0])
    then have "\<forall>x \<in> snd ` set (copy_props ?h0 (\<lambda>v. v) (copy_props ?h0 (\<lambda>v. v) [] target) (Ptr a)).
        closed ?h0 x"
      by (rule vals_copy_props) (simp add: closed_lookup [OF cs0])
    then have "closed_cell (?h0 @ [Obj (copy_props ?h0 (\<lambda>v. v) (copy_props ?h0 (\<lambda>v. v) [] target) (Ptr a))])
        (Obj (copy_props ?h0 (\<lambda>v. v) (copy_props ?h0 (\<lambda>v. v) [] target) (Ptr a)))"
      unfolding closed_cell_Obj by (auto intro: closed_mono)
    with cs0 have "closed_store h1" unfolding h1 by (rule closed_store_append)
    with a' h1 show ?thesis by simp
  qed
qed

lemma closed_writeProp:
  assumes cs: "closed_store (store s)" and r: "closed (store s) r"
  shows "closed_store (store (writeProp a k r s))"
proof -
  have "\<forall>x \<in> snd ` set (obj_props (store s) a). closed (store s) x"
  proof (cases "cell_at (store s) a")
    case None
    then show ?thesis by (simp add: obj_props_def)
  next
    case (Some c)
    from closed_storeD [OF cs Some] show ?thesis
      by (cases c) (simp_all add: obj_props_def Some closed_cell_Obj)
  qed
  with r have "\<forall>x \<in> insert r (snd ` set (obj_props (store s) a)). closed (store s) x" by simp
  then have "\<forall>x \<in> snd ` set (set_prop (obj_props (store s) a) k r). closed (store s) x"
    using vals_set_prop [of "obj_props (store s) a" k r] by (meson subsetD)
  then have "closed_cell (store s) (Obj (set_prop (obj_props (store s) a) k r))"
    by (simp add: closed_cell_Obj)
  with cs show ?thesis
    unfolding writeProp_def by (simp add: closed_store_update)
qed

lemma closed_cell_value:
  assumes "closed_store h" and "map_of (obj_props h a) k = Some v"
  shows "closed h v"
proof -
  from assms(2) obtain ps where "cell_at h a = Some (Obj ps)" "map_of ps k = Some v"
    by (auto simp: obj_props_def split: option.splits cell.splits)
  then have "closed_cell h (Obj ps)" "v \<in> snd ` set ps"
    using closed_storeD [OF assms(1)] by (auto dest: map_of_SomeD intro: rev_image_eqI)
  then show ?thesis unfolding closed_cell_Obj by blast
qed

lemma resolveRefs_closed:
  "resolveRefs n st spec data = Ok r st' \<Longrightarrow> closed_store (store st) \<Longrightarrow> closed (store st) data \<Longrightarrow>
   closed_store (store st') \<and> closed (store st') r"
proof (induction n arbitrary: st data r st')
  case 0
  then show ?case by simp
next
  case (Suc n)
  from Suc.prems(1) show ?case
  proof (cases rule: resolveRefs_Suc_cases)
    case unchanged
    with Suc.prems show ?thesis by simp
  next
    case (array a xs ys st1)
    from closed_storeD [OF Suc.prems(2) array(3)] have xs: "\<forall>x \<in> set xs. closed (store st) x"
      by (simp add: closed_cell_Arr)
    let ?I = "\<lambda>s. closed_store (store s) \<and> length (store st) \<le> length (store s)"
    have "?I st1 \<and> (\<forall>y \<in> set ys. closed (store st1) y) \<and> length ys = length xs"
    proof (rule mapItems_rule [OF array(4), where I = ?I and Q = "\<lambda>s y. closed (store s) y"])
      show "?I st" using Suc.prems(2) by simp
    next
      fix s x y s'
      assume x: "x \<in> set xs" and i: "?I s" and call: "resolveRefs n s spec x = Ok y s'"
      from x xs i have "closed (store s) x" by (auto intro: closed_mono)
      from Suc.IH [OF call _ this] i have "closed_store (store s')" "closed (store s') y" by simp_all
      moreover from resolveRefs_evolves [OF call] i have "length (store st) \<le> length (store s')"
        using evolvesD(1) by fastforce
      ultimately show "?I s' \<and> closed (store s') y" by simp
    next
      fix s x y s' z
      assume "resolveRefs n s spec x = Ok y s'" "closed (store s) z"
      then show "closed (store s') z"
        using evolvesD(1) [OF resolveRefs_evolves] closed_mono by blast
    qed
    then have 1: "closed_store (store st1)" "\<forall>y \<in> set ys. closed (store st1) y" by simp_all
    from 1(2) have "closed_cell (store st1 @ [Arr ys]) (Arr ys)"
      by (auto simp: closed_cell_Arr intro: closed_mono)
    with 1(1) have "closed_store (store st1 @ [Arr ys])" by (rule closed_store_append)
    then show ?thesis by (simp add: array(5,6))
  next
    case (object a ps a' h1 u)
    from closed_followRef [OF Suc.prems(2) object(3,4)]
    have cs1: "closed_store h1" and b1: "a' < length h1" by simp_all
    let ?st1 = "\<lparr>store = h1, dataCache = insert a' (dataCache st)\<rparr>"
    let ?I = "\<lambda>s. closed_store (store s) \<and> a' < length (store s)"
    have "?I st'"
    proof (rule forIn_rule [OF object(5), where I = ?I])
      show "?I ?st1" using cs1 b1 by simp
    next
      fix s k v x s'
      assume i: "?I s" and cur: "map_of (obj_props (store s) a') k = Some v"
        and call: "resolveRefs n s spec v = Ok x s'"
      from i cur have "closed (store s) v" by (auto intro: closed_cell_value)
      from Suc.IH [OF call _ this] i have c: "closed_store (store s')" "closed (store s') x" by simp_all
      from resolveRefs_evolves [OF call] i have "a' < length (store s')"
        using evolvesD(1) by fastforce
      with closed_writeProp [OF c] show "?I (writeProp a' k x s')"
        by (simp add: writeProp_def)
    qed
    then show ?thesis by (simp add: object(6))
  qed
qed

section \<open>What a pass leaves behind\<close>

lemma resolved_mono:
  "resolved st v \<Longrightarrow> evolves st st' \<Longrightarrow> resolved st' v"
proof (induction rule: resolved.induct)
  case (primitive v st)
  then show ?case by (simp add: resolved.primitive)
next
  case (visited a st)
  then show ?case using evolvesD(2) [of st st'] by (auto intro: resolved.visited)
next
  case (elements st a xs)
  then have "cell_at (store st') a = Some (Arr xs)" using evolvesD(3) by blast
  moreover from elements have "\<forall>x \<in> set xs. resolved st' x" by blast
  ultimately show ?case by (rule resolved.elements)
qed

lemma resolveRefs_resolved:
  "resolveRefs n st spec data = Ok r st' \<Longrightarrow> closed_store (store st) \<Longrightarrow> closed (store st) data \<Longrightarrow>
   resolved st' r"
proof (induction n arbitrary: st data r st')
  case 0
  then show ?case by simp
next
  case (Suc n)
  from Suc.prems(1) show ?case
  proof (cases rule: resolveRefs_Suc_cases)
    case unchanged
    from unchanged(3) Suc.prems(3) have "(\<forall>a. data \<noteq> Ptr a) \<or> (\<exists>a. data = Ptr a \<and> a \<in> dataCache st)"
      by (cases data) (auto simp: cell_at_def)
    then show ?thesis unfolding unchanged(1,2)
      by (auto intro: resolved.primitive resolved.visited)
  next
    case (array a xs ys st1)
    from closed_storeD [OF Suc.prems(2) array(3)] have xs: "\<forall>x \<in> set xs. closed (store st) x"
      by (simp add: closed_cell_Arr)
    let ?I = "\<lambda>s. closed_store (store s) \<and> length (store st) \<le> length (store s)"
    have "?I st1 \<and> (\<forall>y \<in> set ys. resolved st1 y) \<and> length ys = length xs"
    proof (rule mapItems_rule [OF array(4), where I = ?I and Q = "\<lambda>s y. resolved s y"])
      show "?I st" using Suc.prems(2) by simp
    next
      fix s x y s'
      assume x: "x \<in> set xs" and i: "?I s" and call: "resolveRefs n s spec x = Ok y s'"
      from x xs i have c: "closed (store s) x" by (auto intro: closed_mono)
      from i have cs: "closed_store (store s)" by simp
      from resolveRefs_closed [OF call cs c] have "closed_store (store s')" by simp
      moreover from resolveRefs_evolves [OF call] i have "length (store st) \<le> length (store s')"
        using evolvesD(1) by fastforce
      moreover from Suc.IH [OF call cs c] have "resolved s' y" .
      ultimately show "?I s' \<and> resolved s' y" by simp
    next
      fix s x y s' z
      assume "resolveRefs n s spec x = Ok y s'" "resolved s z"
      then show "resolved s' z"
        using resolveRefs_evolves resolved_mono by blast
    qed
    then have "\<forall>y \<in> set ys. resolved st1 y" by simp
    then have "\<forall>y \<in> set ys. resolved st' y"
      unfolding array(6) using evolves_alloc_arr resolved_mono by blast
    moreover have "cell_at (store st') (length (store st1)) = Some (Arr ys)"
      by (simp add: array(6) cell_at_append)
    ultimately show ?thesis unfolding array(5) by (rule resolved.elements [rotated])
  next
    case (object a ps a' h1 u)
    let ?st1 = "\<lparr>store = h1, dataCache = insert a' (dataCache st)\<rparr>"
    have "a' \<in> dataCache st'"
    proof (rule forIn_rule [OF object(5), where I = "\<lambda>s. a' \<in> dataCache s"])
      show "a' \<in> dataCache ?st1" by simp
    next
      fix s k v x s'
      assume "a' \<in> dataCache s" "resolveRefs n s spec v = Ok x s'"
      then show "a' \<in> dataCache (writeProp a' k x s')"
        using evolvesD(2) [OF resolveRefs_evolves] by (fastforce simp: writeProp_def)
    qed
    then show ?thesis unfolding object(6) by (rule resolved.visited)
  qed
qed

section \<open>Recursion depth\<close>

lemma mapItems_fuel:
  assumes "\<And>s x. x \<in> set xs \<Longrightarrow> f s x \<noteq> OutOfFuel \<Longrightarrow> g s x = f s x"
  shows "mapItems f st xs \<noteq> OutOfFuel \<Longrightarrow> mapItems g st xs = mapItems f st xs"
  using assms
proof (induction xs arbitrary: st)
  case Nil
  show ?case by simp
next
  case (Cons x xs)
  from Cons.prems(1) have ne: "f st x \<noteq> OutOfFuel" by (auto split: outcome.splits)
  with Cons.prems(2) have g: "g st x = f st x" by simp
  show ?case
  proof (cases "f st x")
    case (Ok y s1)
    with Cons.prems(1) have "mapItems f s1 xs \<noteq> OutOfFuel" by (auto split: outcome.splits)
    then have "mapItems g s1 xs = mapItems f s1 xs"
      using Cons.prems(2) by (intro Cons.IH) auto
    with g Ok show ?thesis by simp
  next
    case (Err e)
    with g show ?thesis by simp
  next
    case OutOfFuel
    with ne show ?thesis by simp
  qed
qed

lemma forIn_fuel:
  assumes "\<And>s v. f s v \<noteq> OutOfFuel \<Longrightarrow> g s v = f s v"
  shows "forIn f a st ks \<noteq> OutOfFuel \<Longrightarrow> forIn g a st ks = forIn f a st ks"
proof (induction ks arbitrary: st)
  case Nil
  show ?case by simp
next
  case (Cons k ks)
  show ?case
  proof (cases "map_of (obj_props (store st) a) k")
    case None
    with Cons show ?thesis by simp
  next
    case (Some v)
    with Cons.prems have ne: "f st v \<noteq> OutOfFuel" by (auto split: outcome.splits)
    with assms have g: "g st v = f st v" by simp
    show ?thesis
    proof (cases "f st v")
      case (Ok r s1)
      show ?thesis
      proof (cases "setter_runs (obj_props (store s1) a) k")
        case True
        with g Ok Some show ?thesis by simp
      next
        case False
        with Cons.prems Some Ok have "forIn f a (writeProp a k r s1) ks \<noteq> OutOfFuel" by simp
        from Cons.IH [OF this] g Ok Some False show ?thesis by simp
      qed
    next
      case (Err e)
      with g Some show ?thesis by simp
    next
      case OutOfFuel
      with ne show ?thesis by simp
    qed
  qed
qed

lemma resolveRefs_unchanged:
  "\<not> truthy data \<or> has (dataCache st) data \<or> (\<forall>a. data \<noteq> Ptr a) \<or>
   (\<exists>a. data = Ptr a \<and> cell_at (store st) a = None) \<Longrightarrow>
   resolveRefs (Suc n) st spec data = Ok data st"
  by (cases data) auto

lemma resolveRefs_array:
  "a \<notin> dataCache st \<Longrightarrow> cell_at (store st) a = Some (Arr xs) \<Longrightarrow>
   resolveRefs (Suc n) st spec (Ptr a) =
     (case mapItems (\<lambda>s v. resolveRefs n s spec v) st xs of
        Ok ys st1 \<Rightarrow> Ok (Ptr (length (store st1))) (st1\<lparr>store := store st1 @ [Arr ys]\<rparr>)
      | Err e \<Rightarrow> Err e
      | OutOfFuel \<Rightarrow> OutOfFuel)"
  by simp

lemma resolveRefs_object:
  "a \<notin> dataCache st \<Longrightarrow> cell_at (store st) a = Some (Obj ps) \<Longrightarrow>
   resolveRefs (Suc n) st spec (Ptr a) =
     (case followRef (store st) spec a of
        Inl e \<Rightarrow> Err e
      | Inr (a', h1) \<Rightarrow>
          (case forIn (\<lambda>s v. resolveRefs n s spec v) a'
                  \<lparr>store = h1, dataCache = insert a' (dataCache st)\<rparr>
                  (map fst (obj_props h1 a')) of
             Ok u st2 \<Rightarrow> Ok (Ptr a') st2
           | Err e \<Rightarrow> Err e
           | OutOfFuel \<Rightarrow> OutOfFuel))"
  by simp

declare resolveRefs.simps [simp del]

lemma resolveRefs_0 [simp]: "resolveRefs 0 st spec data = OutOfFuel"
  by (simp add: resolveRefs.simps)

lemma resolveRefs_fuel_Suc:
  "resolveRefs n st spec data \<noteq> OutOfFuel \<Longrightarrow>
   resolveRefs (Suc n) st spec data = resolveRefs n st spec data"
proof (induction n arbitrary: st data)
  case 0
  then show ?case by simp
next
  case (Suc n)
  have m: "mapItems (\<lambda>s v. resolveRefs (Suc n) s spec v) s xs =
           mapItems (\<lambda>s v. resolveRefs n s spec v) s xs"
    if "mapItems (\<lambda>s v. resolveRefs n s spec v) s xs \<noteq> OutOfFuel" for s xs
    using that by (rule mapItems_fuel [rotated]) (rule Suc.IH)
  have l: "forIn (\<lambda>s v. resolveRefs (Suc n) s spec v) a s ks =
           forIn (\<lambda>s v. resolveRefs n s spec v) a s ks"
    if "forIn (\<lambda>s v. resolveRefs n s spec v) a s ks \<noteq> OutOfFuel" for a s ks
    using that by (rule forIn_fuel [rotated]) (rule Suc.IH)
  consider
    (unchanged) "\<not> truthy data \<or> has (dataCache st) data \<or> (\<forall>a. data \<noteq> Ptr a) \<or>
       (\<exists>a. data = Ptr a \<and> cell_at (store st) a = None)"
  | (array) a xs where "data = Ptr a" "a \<notin> dataCache st" "cell_at (store st) a = Some (Arr xs)"
  | (object) a ps where "data = Ptr a" "a \<notin> dataCache st" "cell_at (store st) a = Some (Obj ps)"
  proof (cases data)
    case (Ptr a)
    show ?thesis
    proof (cases "cell_at (store st) a")
      case None
      with Ptr unchanged show ?thesis by blast
    next
      case (Some c)
      show ?thesis
      proof (cases "a \<in> dataCache st")
        case True
        with Ptr unchanged show ?thesis by simp
      next
        case False
        with Ptr Some array object show ?thesis by (cases c) auto
      qed
    qed
  qed (use unchanged in auto)
  then show ?case
  proof cases
    case unchanged
    then show ?thesis by (simp add: resolveRefs_unchanged)
  next
    case (array a xs)
    note eq = resolveRefs_array [OF array(2,3)]
    from Suc.prems have "mapItems (\<lambda>s v. resolveRefs n s spec v) st xs \<noteq> OutOfFuel"
      unfolding array(1) eq by (auto split: outcome.splits)
    from m [OF this] show ?thesis unfolding array(1) eq by simp
  next
    case (object a ps)
    note eq = resolveRefs_object [OF object(2,3)]
    show ?thesis
    proof (cases "followRef (store st) spec a")
      case (Inl e)
      then show ?thesis unfolding object(1) eq by simp
    next
      case (Inr p)
      obtain a' h1 where p: "p = (a', h1)" by (cases p)
      from Suc.prems have "forIn (\<lambda>s v. resolveRefs n s spec v) a'
                    \<lparr>store = h1, dataCache = insert a' (dataCache st)\<rparr>
                    (map fst (obj_props h1 a')) \<noteq> OutOfFuel"
        unfolding object(1) eq Inr p by (auto split: outcome.splits)
      from l [OF this] show ?thesis unfolding object(1) eq Inr p by simp
    qed
  qed
qed

lemma resolveRefs_fuel_mono:
  assumes "resolveRefs n st spec data \<noteq> OutOfFuel" and "n \<le> m"
  shows "resolveRefs m st spec data = resolveRefs n st spec data"
  using assms(2,1)
proof (induction m rule: dec_induct)
  case base
  show ?case by simp
next
  case (step m)
  then have "resolveRefs m st spec data \<noteq> OutOfFuel" by simp
  from resolveRefs_fuel_Suc [OF this] step show ?case by simp
qed

section \<open>Idempotence\<close>

lemma only_new_arrays_refl: "only_new_arrays st st"
  by (simp add: only_new_arrays_def)

lemma only_new_arrays_trans:
  "only_new_arrays st st' \<Longrightarrow> only_new_arrays st' st'' \<Longrightarrow> only_new_arrays st st''"
  by (auto simp: only_new_arrays_def)

lemma only_new_arrays_alloc: "only_new_arrays st (st\<lparr>store := store st @ [Arr ys]\<rparr>)"
  by (simp add: only_new_arrays_def is_arr_def)

lemma only_new_arrays_cell:
  "only_new_arrays st st' \<Longrightarrow> cell_at (store st) a = Some c \<Longrightarrow> cell_at (store st') a = Some c"
  by (auto simp: only_new_arrays_def cell_at_def nth_append split: if_splits)

lemma same_shape_mono:
  "same_shape h v w \<Longrightarrow> (\<And>a c. cell_at h a = Some c \<Longrightarrow> cell_at h' a = Some c) \<Longrightarrow>
   same_shape h' v w"
proof (induction rule: same_shape.induct)
  case (same h v)
  show ?case by (rule same_shape.same)
next
  case (arrays h a xs b ys)
  from arrays(3) arrays(4) have "list_all2 (same_shape h') xs ys"
    by (induction xs ys rule: list_all2_induct) auto
  with arrays(1,2,4) show ?case by (auto intro: same_shape.arrays)
qed

lemma mapItems_second_pass:
  assumes each: "\<And>x s. x \<in> set xs0 \<Longrightarrow> only_new_arrays st s \<Longrightarrow>
      \<exists>m r' s'. resolveRefs m s spec x = Ok r' s' \<and> only_new_arrays s s' \<and> same_shape (store s') x r'"
  shows "set xs \<subseteq> set xs0 \<Longrightarrow> only_new_arrays st s \<Longrightarrow>
     \<exists>m ys s1. mapItems (\<lambda>s v. resolveRefs m s spec v) s xs = Ok ys s1 \<and> only_new_arrays s s1 \<and>
       list_all2 (same_shape (store s1)) xs ys"
proof (induction xs arbitrary: s)
  case Nil
  then show ?case by (auto simp: only_new_arrays_refl)
next
  case (Cons x xs)
  from Cons.prems have x: "x \<in> set xs0" and sub: "set xs \<subseteq> set xs0" by simp_all
  from each [OF x Cons.prems(2)] obtain m1 r1 s1 where
    c1: "resolveRefs m1 s spec x = Ok r1 s1" and n1: "only_new_arrays s s1"
    and sh1: "same_shape (store s1) x r1"
    by blast
  from only_new_arrays_trans [OF Cons.prems(2) n1] have "only_new_arrays st s1" .
  from Cons.IH [OF sub this] obtain m2 ys s2 where
    c2: "mapItems (\<lambda>s v. resolveRefs m2 s spec v) s1 xs = Ok ys s2" and n2: "only_new_arrays s1 s2"
    and sh2: "list_all2 (same_shape (store s2)) xs ys"
    by blast
  let ?m = "max m1 m2"
  have f1: "resolveRefs ?m s spec x = Ok r1 s1"
    using resolveRefs_fuel_mono [of m1 s spec x ?m] c1 by simp
  have "mapItems (\<lambda>s v. resolveRefs ?m s spec v) s1 xs = mapItems (\<lambda>s v. resolveRefs m2 s spec v) s1 xs"
  proof (rule mapItems_fuel)
    fix s x
    assume "resolveRefs m2 s spec x \<noteq> OutOfFuel"
    then show "resolveRefs ?m s spec x = resolveRefs m2 s spec x"
      by (rule resolveRefs_fuel_mono) simp
  next
    show "mapItems (\<lambda>s v. resolveRefs m2 s spec v) s1 xs \<noteq> OutOfFuel" using c2 by simp
  qed
  with c2 f1 have run: "mapItems (\<lambda>s v. resolveRefs ?m s spec v) s (x # xs) = Ok (r1 # ys) s2"
    by simp
  have "same_shape (store s2) x r1"
    using sh1 only_new_arrays_cell [OF n2] by (rule same_shape_mono)
  with sh2 have "list_all2 (same_shape (store s2)) (x # xs) (r1 # ys)" by simp
  with run only_new_arrays_trans [OF n1 n2] show ?case by blast
qed

lemma second_pass:
  "resolved st v \<Longrightarrow> only_new_arrays st s \<Longrightarrow>
   \<exists>m r' s'. resolveRefs m s spec v = Ok r' s' \<and> only_new_arrays s s' \<and> same_shape (store s') v r'"
proof (induction arbitrary: s rule: resolved.induct)
  case (primitive v st)
  then have "resolveRefs (Suc 0) s spec v = Ok v s"
    by (intro resolveRefs_unchanged) simp
  then show ?case
    using only_new_arrays_refl same_shape.same by blast
next
  case (visited a st)
  then have "a \<in> dataCache s" by (simp add: only_new_arrays_def)
  then have "resolveRefs (Suc 0) s spec (Ptr a) = Ok (Ptr a) s"
    by (intro resolveRefs_unchanged) simp
  then show ?case
    using only_new_arrays_refl same_shape.same by blast
next
  case (elements st a xs)
  show ?case
  proof (cases "a \<in> dataCache s")
    case True
    then have "resolveRefs (Suc 0) s spec (Ptr a) = Ok (Ptr a) s"
      by (intro resolveRefs_unchanged) simp
    then show ?thesis
      using only_new_arrays_refl same_shape.same by blast
  next
    case False
    from only_new_arrays_cell [OF elements.prems elements.hyps(1)]
    have cell: "cell_at (store s) a = Some (Arr xs)" .
    have "\<exists>m ys s1. mapItems (\<lambda>s v. resolveRefs m s spec v) s xs = Ok ys s1 \<and> only_new_arrays s s1 \<and>
       list_all2 (same_shape (store s1)) xs ys"
    proof (rule mapItems_second_pass [where ?xs0.0 = xs and st = st])
      fix x s
      assume "x \<in> set xs" "only_new_arrays st s"
      with elements.IH show "\<exists>m r' s'. resolveRefs m s spec x = Ok r' s' \<and> only_new_arrays s s' \<and>
          same_shape (store s') x r'"
        by blast
    qed (simp_all add: elements.prems)
    then obtain m ys s1 where
      run: "mapItems (\<lambda>s v. resolveRefs m s spec v) s xs = Ok ys s1" and n1: "only_new_arrays s s1"
      and sh: "list_all2 (same_shape (store s1)) xs ys"
      by blast
    let ?s' = "s1\<lparr>store := store s1 @ [Arr ys]\<rparr>"
    have r: "resolveRefs (Suc m) s spec (Ptr a) = Ok (Ptr (length (store s1))) ?s'"
      by (simp add: resolveRefs_array [OF False cell] run)
    have n: "only_new_arrays s ?s'"
      using n1 only_new_arrays_alloc by (rule only_new_arrays_trans)
    have c1: "cell_at (store ?s') a = Some (Arr xs)"
      using only_new_arrays_cell [OF n cell] .
    have c2: "cell_at (store ?s') (length (store s1)) = Some (Arr ys)"
      by (simp add: cell_at_append)
    have keep: "cell_at (store ?s') b = Some c" if "cell_at (store s1) b = Some c" for b c
      using that cell_at_bound [OF that] by (simp add: cell_at_append)
    have "same_shape (store ?s') v w" if "same_shape (store s1) v w" for v w
      using that keep by (rule same_shape_mono)
    with sh have "list_all2 (same_shape (store ?s')) xs ys"
      by (rule list_all2_mono)
    with c1 c2 have "same_shape (store ?s') (Ptr a) (Ptr (length (store s1)))"
      by (rule same_shape.arrays)
    with r n show ?thesis by blast
  qed
qed

text \<open>
  C3. In a closed store, whatever \<^verbatim>\<open>resolveRefs\<close> returns, a second application to
  that result (in the state the first one left, with the process-wide memo as it
  then is) returns a value of the same shape, leaves the memo as it is and changes
  no cell of the store: it only allocates the arrays that \<^verbatim>\<open>map\<close> builds anew.
  When the result is not an array, the second application returns the very same
  value and leaves the state as it is.
\<close>

theorem resolveRefs_idempotent:
  assumes "closed_store (store st)" and "closed (store st) data"
      and "resolveRefs n st spec data = Ok r st'"
  shows "\<exists>m r' st''. resolveRefs m st' spec r = Ok r' st'' \<and>
           same_shape (store st'') r r' \<and> only_new_arrays st' st'' \<and>
           ((\<forall>a xs. r = Ptr a \<longrightarrow> cell_at (store st') a \<noteq> Some (Arr xs)) \<longrightarrow>
              r' = r \<and> st'' = st')"
proof -
  from resolveRefs_resolved [OF assms(3,1,2)] have res: "resolved st' r" .
  show ?thesis
  proof (cases "\<forall>a xs. r = Ptr a \<longrightarrow> cell_at (store st') a \<noteq> Some (Arr xs)")
    case False
    with second_pass [OF res only_new_arrays_refl] show ?thesis by blast
  next
    case True
    from res True have "(\<forall>a. r \<noteq> Ptr a) \<or> has (dataCache st') r"
      by (cases rule: resolved.cases) auto
    then have "resolveRefs (Suc 0) st' spec r = Ok r st'"
      by (intro resolveRefs_unchanged) auto
    then show ?thesis
      using only_new_arrays_refl same_shape.same by blast
  qed
qed

theorem resolveRefs_idempotent_witness:
  "closed_store [Obj [], Arr [Ptr 2, Num 5], Obj [(''k'', Str ''v'')]] \<and>
   closed [Obj [], Arr [Ptr 2, Num 5], Obj [(''k'', Str ''v'')]] (Ptr 1) \<and>
   resolveRefs 3 \<lparr>store = [Obj [], Arr [Ptr 2, Num 5], Obj [(''k'', Str ''v'')]], dataCache = {}\<rparr>
     (Ptr 0) (Ptr 1) =
   Ok (Ptr 3) \<lparr>store = [Obj [], Arr [Ptr 2, Num 5], Obj [(''k'', Str ''v'')], Arr [Ptr 2, Num 5]],
               dataCache = {2}\<rparr> \<and>
   (\<exists>m r' st''.
      resolveRefs m \<lparr>store = [Obj [], Arr [Ptr 2, Num 5], Obj [(''k'', Str ''v'')], Arr [Ptr 2, Num 5]],
               dataCache = {2}\<rparr> (Ptr 0) (Ptr 3) = Ok r' st'' \<and>
      same_shape (store st'') (Ptr 3) r' \<and>
      only_new_arrays \<lparr>store = [Obj [], Arr [Ptr 2, Num 5], Obj [(''k'', Str ''v'')], Arr [Ptr 2, Num 5]],
               dataCache = {2}\<rparr> st'')"
proof -
  let ?h = "[Obj [], Arr [Ptr 2, Num 5], Obj [(''k'', Str ''v'')]]"
  let ?st = "\<lparr>store = ?h, dataCache = {}\<rparr>"
  let ?st' = "\<lparr>store = [Obj [], Arr [Ptr 2, Num 5], Obj [(''k'', Str ''v'')], Arr [Ptr 2, Num 5]],
               dataCache = {2}\<rparr>"
  have cs: "closed_store (store ?st)"
    by (simp add: closed_store_def closed_cell_def)
  have cl: "closed (store ?st) (Ptr 1)" by simp
  have run: "resolveRefs 3 ?st (Ptr 0) (Ptr 1) = Ok (Ptr 3) ?st'"
    by code_simp
  from resolveRefs_idempotent [OF cs cl run]
  have "\<exists>m r' st''. resolveRefs m ?st' (Ptr 0) (Ptr 3) = Ok r' st'' \<and>
      same_shape (store st'') (Ptr 3) r' \<and> only_new_arrays ?st' st''"
    by blast
  with cs cl run show ?thesis by simp
qed

section \<open>The work left to a pass\<close>










section \<open>Nesting of arrays\<close>













section \<open>Runs that stay within the model\<close>

























section \<open>Termination\<close>









section \<open>The merge of a referencing node\<close>

text \<open>
  C1. The merged node is to carry no reference field, and \<^verbatim>\<open>delete data.$ref\<close> is
  there to see to it; but the fields of the target are copied as they are, so a
  target that is itself a referencing node hands its own \<^verbatim>\<open>$ref\<close> to the merged
  node, where it is a string and is left as it is. Here
  \<^verbatim>\<open>{$ref: '#/definitions/A'}\<close> with \<^verbatim>\<open>A = {$ref: '#/definitions/B', x: 1}\<close> and
  \<^verbatim>\<open>B = {y: 2}\<close> resolves to the new object \<^verbatim>\<open>{$ref: '#/definitions/B', x: 1}\<close>,
  which still carries \<^verbatim>\<open>$ref\<close> and has nothing of \<^verbatim>\<open>B\<close>.
\<close>

theorem resolveRefs_chained_ref_counterexample:
  "resolveRefs 3 \<lparr>store = [Obj [(''definitions'', Ptr 1)], Obj [(''A'', Ptr 2), (''B'', Ptr 3)],
      Obj [(''$ref'', Str ''#/definitions/B''), (''x'', Num 1)], Obj [(''y'', Num 2)],
      Obj [(''$ref'', Str ''#/definitions/A'')]], dataCache = {}\<rparr> (Ptr 0) (Ptr 4) =
     Ok (Ptr 5) \<lparr>store = [Obj [(''definitions'', Ptr 1)], Obj [(''A'', Ptr 2), (''B'', Ptr 3)],
      Obj [(''$ref'', Str ''#/definitions/B''), (''x'', Num 1)], Obj [(''y'', Num 2)], Obj [],
      Obj [(''$ref'', Str ''#/definitions/B''), (''x'', Num 1)]], dataCache = {5}\<rparr> \<and>
   cell_at [Obj [(''definitions'', Ptr 1)], Obj [(''A'', Ptr 2), (''B'', Ptr 3)],
      Obj [(''$ref'', Str ''#/definitions/B''), (''x'', Num 1)], Obj [(''y'', Num 2)], Obj [],
      Obj [(''$ref'', Str ''#/definitions/B''), (''x'', Num 1)]] 5 = Some (Obj [(''$ref'', Str ''#/definitions/B''), (''x'', Num 1)]) \<and>
   ''$ref'' \<in> fst ` set [(''$ref'', Str ''#/definitions/B''), (''x'', Num 1)]"
proof -
  have "resolveRefs 3 \<lparr>store = [Obj [(''definitions'', Ptr 1)], Obj [(''A'', Ptr 2), (''B'', Ptr 3)],
      Obj [(''$ref'', Str ''#/definitions/B''), (''x'', Num 1)], Obj [(''y'', Num 2)],
      Obj [(''$ref'', Str ''#/definitions/A'')]], dataCache = {}\<rparr> (Ptr 0) (Ptr 4) =
     Ok (Ptr 5) \<lparr>store = [Obj [(''definitions'', Ptr 1)], Obj [(''A'', Ptr 2), (''B'', Ptr 3)],
      Obj [(''$ref'', Str ''#/definitions/B''), (''x'', Num 1)], Obj [(''y'', Num 2)], Obj [],
      Obj [(''$ref'', Str ''#/definitions/B''), (''x'', Num 1)]], dataCache = {5}\<rparr>"
    by code_simp
  then show ?thesis by (simp add: cell_at_def)
qed

section \<open>Properties of resolveRef\<close>

lemma split_not_Nil: "split c s \<noteq> []"
  by (induction s) (auto split: list.splits)

lemma split_no_sep: "c \<notin> set s \<Longrightarrow> split c s = [s]"
  by (induction s) auto

lemma resolveRef_loop_char:
  "followed h v parts \<Longrightarrow>
   resolveRef_loop h v parts =
     (if \<exists>x \<in> set (lookups h v parts). \<not> truthy x then Inl InvalidReference
      else Inr (last (v # lookups h v parts)))"
proof (induction parts arbitrary: v)
  case Nil
  then show ?case by simp
next
  case (Cons p parts)
  from Cons.prems have "readable h v p" by simp
  then obtain x where gp: "getProp h v p = Inr x"
    by (auto simp: readable_iff)
  then have lk: "lookup h v p = x"
    by (rule getProp_lookup)
  show ?case
  proof (cases "truthy x")
    case True
    with Cons.prems lk have "followed h x parts" by simp
    from Cons.IH [OF this] gp lk True show ?thesis by simp
  next
    case False
    with gp lk show ?thesis by simp
  qed
qed

lemma resolveRef_loop_not_format: "resolveRef_loop h v parts \<noteq> Inl InvalidReferenceFormat"
proof (induction parts arbitrary: v)
  case Nil
  show ?case by simp
next
  case (Cons p parts)
  show ?case
  proof (cases "getProp h v p")
    case (Inl e)
    then show ?thesis using getProp_error [OF Inl] by auto
  next
    case (Inr x)
    then show ?thesis using Cons.IH [of x] by simp
  qed
qed

lemma resolveRef_parts:
  "resolveRef h ref spec =
     (if hd (split CHR ''/'' ref) = ''#'' then resolveRef_loop h spec (tl (split CHR ''/'' ref))
      else Inl InvalidReferenceFormat)"
  using split_not_Nil [of "CHR ''/''" ref]
  by (cases "split CHR ''/'' ref") (simp_all add: resolveRef_def)

text \<open>
  C2, as the code has it. Whatever the document is, the format error is raised exactly
  when the first segment is not \<^verbatim>\<open>#\<close>. A lookup is a property read: it finds the own
  properties of the value and what the value inherits, so that \<^verbatim>\<open>constructor\<close> is
  found in every object. For a walk the model follows, the reference error is raised
  exactly when the first segment is \<^verbatim>\<open>#\<close> and some lookup along the remaining
  segments yields a falsy value (absent, \<^verbatim>\<open>null\<close>, \<^verbatim>\<open>false\<close>, \<^verbatim>\<open>0\<close>,
  \<^verbatim>\<open>NaN\<close> or the empty string), not only an absent one; in every other case the
  value located by the last lookup is returned (the document itself when there is
  no segment after \<^verbatim>\<open>#\<close>). A lookup in a document that is \<^verbatim>\<open>null\<close> or
  \<^verbatim>\<open>undefined\<close> raises a type error.
\<close>

theorem resolveRef_errors:
  "(resolveRef h ref spec = Inl InvalidReferenceFormat \<longleftrightarrow> hd (split CHR ''/'' ref) \<noteq> ''#'') \<and>
   (followed h spec (tl (split CHR ''/'' ref)) \<longrightarrow>
      (resolveRef h ref spec = Inl InvalidReference \<longleftrightarrow>
         hd (split CHR ''/'' ref) = ''#'' \<and>
         (\<exists>x \<in> set (lookups h spec (tl (split CHR ''/'' ref))). \<not> truthy x)) \<and>
      (hd (split CHR ''/'' ref) = ''#'' \<and>
       (\<forall>x \<in> set (lookups h spec (tl (split CHR ''/'' ref))). truthy x) \<longrightarrow>
         resolveRef h ref spec = Inr (last (spec # lookups h spec (tl (split CHR ''/'' ref)))))) \<and>
   (hd (split CHR ''/'' ref) = ''#'' \<and> tl (split CHR ''/'' ref) \<noteq> [] \<and>
    (spec = Undefined \<or> spec = Null) \<longrightarrow> resolveRef h ref spec = Inl TypeError)"
proof -
  have fmt: "resolveRef h ref spec = Inl InvalidReferenceFormat \<longleftrightarrow> hd (split CHR ''/'' ref) \<noteq> ''#''"
    by (simp add: resolveRef_parts resolveRef_loop_not_format)
  have rest: "(resolveRef h ref spec = Inl InvalidReference \<longleftrightarrow>
         hd (split CHR ''/'' ref) = ''#'' \<and>
         (\<exists>x \<in> set (lookups h spec (tl (split CHR ''/'' ref))). \<not> truthy x)) \<and>
      (hd (split CHR ''/'' ref) = ''#'' \<and>
       (\<forall>x \<in> set (lookups h spec (tl (split CHR ''/'' ref))). truthy x) \<longrightarrow>
         resolveRef h ref spec = Inr (last (spec # lookups h spec (tl (split CHR ''/'' ref)))))"
    if "followed h spec (tl (split CHR ''/'' ref))"
    using resolveRef_loop_char [OF that]
    by (auto simp: resolveRef_parts)
  have null: "resolveRef h ref spec = Inl TypeError"
    if "hd (split CHR ''/'' ref) = ''#''" "tl (split CHR ''/'' ref) \<noteq> []"
       "spec = Undefined \<or> spec = Null"
  proof -
    from that(2) obtain p parts where "tl (split CHR ''/'' ref) = p # parts"
      by (cases "tl (split CHR ''/'' ref)") auto
    with that(1,3) show ?thesis
      by (auto simp: resolveRef_parts getProp_def)
  qed
  from fmt rest null show ?thesis by blast
qed

text \<open>
  The claim as the spec words it fails for a key that is present with a falsy value:
  in the document \<^verbatim>\<open>{a: 0}\<close> the reference \<^verbatim>\<open>#/a\<close> raises the reference error,
  although the only lookup yields \<^verbatim>\<open>0\<close>, which is not absent.
\<close>

theorem resolveRef_present_falsy_counterexample:
  "resolveRef [Obj [(''a'', Num 0)]] ''#/a'' (Ptr 0) = Inl InvalidReference \<and>
   lookups [Obj [(''a'', Num 0)]] (Ptr 0) (tl (split CHR ''/'' ''#/a'')) = [Num 0] \<and>
   \<not> absent (Num 0)"
  by (simp add: resolveRef_def cell_at_def lookup_def getProp_def absent_def)

theorem resolveRef_errors_witness:
  "resolveRef [Obj [(''definitions'', Ptr 1)], Obj [(''Pet'', Ptr 2), (''Old'', Null)], Obj []]
     ''#/definitions/Pet'' (Ptr 0) = Inr (Ptr 2) \<and>
   resolveRef [Obj [(''definitions'', Ptr 1)], Obj [(''Pet'', Ptr 2), (''Old'', Null)], Obj []]
     ''#/definitions/Old'' (Ptr 0) = Inl InvalidReference \<and>
   resolveRef [Obj [(''definitions'', Ptr 1)], Obj [(''Pet'', Ptr 2), (''Old'', Null)], Obj []]
     ''#/definitions/constructor'' (Ptr 0) = Inr (Builtin ObjectR ''constructor'') \<and>
   resolveRef [Obj [(''definitions'', Ptr 1)], Obj [(''Pet'', Ptr 2), (''Old'', Null)], Obj []]
     ''other/x'' (Ptr 0) = Inl InvalidReferenceFormat"
proof -
  let ?h = "[Obj [(''definitions'', Ptr 1)], Obj [(''Pet'', Ptr 2), (''Old'', Null)], Obj []]"
  have 1: "resolveRef ?h ''#/definitions/Pet'' (Ptr 0) = Inr (Ptr 2)"
    using resolveRef_errors [of ?h "''#/definitions/Pet''" "Ptr 0"]
    by (simp add: cell_at_def lookup_def getProp_def readable_def)
  have 2: "resolveRef ?h ''#/definitions/Old'' (Ptr 0) = Inl InvalidReference"
    using resolveRef_errors [of ?h "''#/definitions/Old''" "Ptr 0"]
    by (simp add: cell_at_def lookup_def getProp_def readable_def)
  have 3: "resolveRef ?h ''#/definitions/constructor'' (Ptr 0) = Inr (Builtin ObjectR ''constructor'')"
    using resolveRef_errors [of ?h "''#/definitions/constructor''" "Ptr 0"]
    by (simp add: cell_at_def lookup_def getProp_def readable_def inherited_def objectPrototype_def)
  have 4: "resolveRef ?h ''other/x'' (Ptr 0) = Inl InvalidReferenceFormat"
    using resolveRef_errors [of ?h "''other/x''" "Ptr 0"]
    by simp
  from 1 2 3 4 show ?thesis by simp
qed

text \<open>
  C10. For a reference whose first segment is \<^verbatim>\<open>#\<close> and a walk the model follows:
  resolution raises the reference error exactly when some value met along the walk
  is falsy, and it returns a value exactly when every value met is truthy. A key
  of an object that is present with a falsy value (\<^verbatim>\<open>false\<close>, \<^verbatim>\<open>0\<close>, the empty
  string, \<^verbatim>\<open>null\<close>) makes the reference to it fail.
\<close>

theorem resolveRef_falsy_fails:
  "(hd (split CHR ''/'' ref) = ''#'' \<and> followed h spec (tl (split CHR ''/'' ref)) \<longrightarrow>
      (resolveRef h ref spec = Inl InvalidReference \<longleftrightarrow>
         (\<exists>x \<in> set (lookups h spec (tl (split CHR ''/'' ref))). \<not> truthy x)) \<and>
      ((\<exists>v. resolveRef h ref spec = Inr v) \<longleftrightarrow>
         (\<forall>x \<in> set (lookups h spec (tl (split CHR ''/'' ref))). truthy x))) \<and>
   (\<forall>a ps k v. spec = Ptr a \<and> cell_at h a = Some (Obj ps) \<and> map_of ps k = Some v \<and>
      \<not> truthy v \<and> ref = ''#/'' @ k \<and> CHR ''/'' \<notin> set k \<longrightarrow>
      resolveRef h ref spec = Inl InvalidReference)"
proof -
  let ?L = "lookups h spec (tl (split CHR ''/'' ref))"
  have ab: "(resolveRef h ref spec = Inl InvalidReference \<longleftrightarrow> (\<exists>x \<in> set ?L. \<not> truthy x)) \<and>
            ((\<exists>v. resolveRef h ref spec = Inr v) \<longleftrightarrow> (\<forall>x \<in> set ?L. truthy x))"
    if "hd (split CHR ''/'' ref) = ''#''" "followed h spec (tl (split CHR ''/'' ref))"
  proof -
    have eq: "resolveRef h ref spec =
        (if \<exists>x \<in> set ?L. \<not> truthy x then Inl InvalidReference else Inr (last (spec # ?L)))"
      using resolveRef_loop_char [OF that(2)] that(1)
      by (simp add: resolveRef_parts)
    show ?thesis by (simp add: eq)
  qed
  have c: "resolveRef h ref spec = Inl InvalidReference"
    if "spec = Ptr a" "cell_at h a = Some (Obj ps)" "map_of ps k = Some v" "\<not> truthy v"
       "ref = ''#/'' @ k" "CHR ''/'' \<notin> set k" for a ps k v
  proof -
    from that(5,6) have "split CHR ''/'' ref = [''#'', k]"
      by (simp add: split_no_sep)
    moreover from that(1-3) have "getProp h spec k = Inr v"
      by (simp add: getProp_obj)
    ultimately show ?thesis using that(4) by (simp add: resolveRef_def)
  qed
  from ab c show ?thesis by blast
qed

theorem resolveRef_falsy_fails_witness:
  "resolveRef [Obj [(''deprecated'', Bool False)]] ''#/deprecated'' (Ptr 0) = Inl InvalidReference \<and>
   map_of [(''deprecated'', Bool False)] ''deprecated'' = Some (Bool False) \<and>
   followed [Obj [(''deprecated'', Bool False)]] (Ptr 0) [''deprecated''] \<and>
   lookups [Obj [(''deprecated'', Bool False)]] (Ptr 0) [''deprecated''] = [Bool False]"
proof -
  let ?h = "[Obj [(''deprecated'', Bool False)]]"
  have s: "split CHR ''/'' ''#/deprecated'' = [''#'', ''deprecated'']" by simp
  have f: "followed ?h (Ptr 0) [''deprecated'']"
    by (simp add: readable_def cell_at_def)
  have l: "lookups ?h (Ptr 0) [''deprecated''] = [Bool False]"
    by (simp add: lookup_def getProp_def cell_at_def)
  from resolveRef_falsy_fails [of "''#/deprecated''" ?h "Ptr 0"] s f l
  have "resolveRef ?h ''#/deprecated'' (Ptr 0) = Inl InvalidReference" by simp
  with f l show ?thesis by simp
qed

section \<open>Properties of applyDefaults\<close>

lemma getProp_basePath:
  "cell_at h a = Some (Obj ps) \<Longrightarrow>
   getProp h (Ptr a) ''basePath'' = Inr (lookup h (Ptr a) ''basePath'')"
  by (simp add: getProp_plain has_fields_def lookup_plain)

text \<open>
  C9. For a document that is an object, \<^verbatim>\<open>applyDefaults\<close> returns the pointer it was given. When
  \<^verbatim>\<open>basePath\<close> is truthy, the document and the store are as before. When it is
  absent or falsy, \<^verbatim>\<open>basePath\<close> is \<^verbatim>\<open>/\<close> afterwards. In both cases every other
  field of the document and every other cell of the store is unchanged.
\<close>

theorem applyDefaults_basePath:
  assumes "cell_at h a = Some (Obj ps)"
  shows "\<exists>ps'. applyDefaults h (Ptr a) = Inr (Ptr a, h[a := Obj ps']) \<and>
           (truthy (lookup h (Ptr a) ''basePath'') \<longrightarrow> ps' = ps \<and> h[a := Obj ps'] = h) \<and>
           (\<not> truthy (lookup h (Ptr a) ''basePath'') \<longrightarrow> map_of ps' ''basePath'' = Some (Str ''/'')) \<and>
           (\<forall>k. k \<noteq> ''basePath'' \<longrightarrow> map_of ps' k = map_of ps k)"
proof (cases "truthy (lookup h (Ptr a) ''basePath'')")
  case True
  with assms have "applyDefaults h (Ptr a) = Inr (Ptr a, h[a := Obj ps])"
    by (simp add: applyDefaults_def getProp_basePath list_update_same_cell)
  with True assms show ?thesis
    by (auto simp: list_update_same_cell)
next
  case False
  with assms have "applyDefaults h (Ptr a) = Inr (Ptr a, h[a := Obj (set_prop ps ''basePath'' (Str ''/''))])"
    by (simp add: applyDefaults_def getProp_basePath putProp_def put_def setter_runs_def)
  with False show ?thesis
    by (auto simp: map_of_set_prop)
qed

theorem applyDefaults_basePath_witness:
  "applyDefaults [Obj [(''swagger'', Str ''2.0'')]] (Ptr 0) =
     Inr (Ptr 0, [Obj [(''swagger'', Str ''2.0''), (''basePath'', Str ''/'')]]) \<and>
   applyDefaults [Obj [(''basePath'', Str ''/v1''), (''swagger'', Str ''2.0'')]] (Ptr 0) =
     Inr (Ptr 0, [Obj [(''basePath'', Str ''/v1''), (''swagger'', Str ''2.0'')]])"
proof -
  have c1: "cell_at [Obj [(''swagger'', Str ''2.0'')]] 0 = Some (Obj [(''swagger'', Str ''2.0'')])"
    by (simp add: cell_at_def)
  have c2: "cell_at [Obj [(''basePath'', Str ''/v1''), (''swagger'', Str ''2.0'')]] 0 =
      Some (Obj [(''basePath'', Str ''/v1''), (''swagger'', Str ''2.0'')])"
    by (simp add: cell_at_def)
  from applyDefaults_basePath [OF c2]
  have "applyDefaults [Obj [(''basePath'', Str ''/v1''), (''swagger'', Str ''2.0'')]] (Ptr 0) =
     Inr (Ptr 0, [Obj [(''basePath'', Str ''/v1''), (''swagger'', Str ''2.0'')]])"
    by (auto simp: lookup_def getProp_def cell_at_def)
  moreover from applyDefaults_basePath [OF c1]
  have "applyDefaults [Obj [(''swagger'', Str ''2.0'')]] (Ptr 0) =
     Inr (Ptr 0, [Obj [(''swagger'', Str ''2.0''), (''basePath'', Str ''/'')]])"
    by (simp add: applyDefaults_def getProp_def inherited_def objectPrototype_def cell_at_def
        putProp_def put_def setter_runs_def set_prop_def parse_index_def digit_val_def)
  ultimately show ?thesis by simp
qed

section \<open>Properties of path normalization\<close>

lemma split_parts_no_sep: "s \<in> set (split c xs) \<Longrightarrow> c \<notin> set s"
proof (induction xs arbitrary: s)
  case Nil
  then show ?case by simp
next
  case (Cons x xs)
  show ?case
  proof (cases "x = c")
    case True
    with Cons show ?thesis by auto
  next
    case False
    obtain p ps where sp: "split c xs = p # ps"
      using split_not_Nil [of c xs] by (cases "split c xs") auto
    with False Cons.prems have "s = x # p \<or> s \<in> set ps" by auto
    then show ?thesis
    proof
      assume "s = x # p"
      moreover have "c \<notin> set p" using Cons.IH [of p] sp by simp
      ultimately show ?thesis using False by auto
    next
      assume "s \<in> set ps"
      then show ?thesis using Cons.IH [of s] sp by simp
    qed
  qed
qed

lemma normalizeString_plain:
  assumes "\<forall>s \<in> set res. plain_segment s" and "\<forall>s \<in> set segs. CHR ''/'' \<notin> set s"
  shows "\<forall>s \<in> set (normalizeString False res segs). plain_segment s"
  using assms
proof (induction segs arbitrary: res)
  case Nil
  then show ?case by simp
next
  case (Cons s segs)
  have b: "\<forall>s \<in> set (butlast res). plain_segment s"
    using Cons.prems(1) by (auto dest: in_set_butlastD)
  have a: "\<forall>t \<in> set (res @ [s]). plain_segment t" if "s \<noteq> []" "s \<noteq> ''.''" "s \<noteq> ''..''"
    using Cons.prems that by (auto simp: plain_segment_def)
  from Cons.prems(2) have r: "\<forall>s \<in> set segs. CHR ''/'' \<notin> set s" by simp
  show ?case
    using Cons.IH [OF Cons.prems(1) r] Cons.IH [OF b r] Cons.IH [OF a r]
    by auto
qed

lemma join_empty: "\<forall>s \<in> set ss. s \<noteq> [] \<Longrightarrow> join ss = [] \<longleftrightarrow> ss = []"
  by (induction ss rule: join.induct) auto

lemma normalize_absolute:
  assumes "p \<noteq> []" and "hd p = CHR ''/''"
  shows "\<exists>segs. normalize p = ''/'' @ join segs @ (if segs \<noteq> [] \<and> last p = CHR ''/'' then ''/'' else []) \<and>
           (\<forall>s \<in> set segs. plain_segment s)"
proof -
  let ?segs = "normalizeString False [] (split CHR ''/'' p)"
  have plain: "\<forall>s \<in> set ?segs. plain_segment s"
    by (rule normalizeString_plain) (auto dest: split_parts_no_sep)
  then have "join ?segs = [] \<longleftrightarrow> ?segs = []"
    by (intro join_empty) (auto simp: plain_segment_def)
  with assms have "normalize p = ''/'' @ join ?segs @ (if ?segs \<noteq> [] \<and> last p = CHR ''/'' then ''/'' else [])"
    by (auto simp: normalize_def Let_def)
  with plain show ?thesis by blast
qed

section \<open>Properties of the parameter schemas\<close>

lemma mapE_Inr:
  "mapE f xs = Inr ys \<Longrightarrow> list_all2 (\<lambda>x y. f x = Inr y) xs ys"
proof (induction xs arbitrary: ys)
  case Nil
  then show ?case by simp
next
  case (Cons x xs)
  then show ?case by (auto simp: bindE_Inr_iff)
qed

lemma mapE_total: "(\<And>x. x \<in> set xs \<Longrightarrow> \<exists>y. f x = Inr y) \<Longrightarrow> \<exists>ys. mapE f xs = Inr ys"
proof (induction xs)
  case Nil
  show ?case by simp
next
  case (Cons x xs)
  from Cons.prems [of x] obtain y where "f x = Inr y" by auto
  moreover from Cons.IH Cons.prems obtain ys where "mapE f xs = Inr ys" by auto
  ultimately show ?case by simp
qed

lemma filterE_Inr:
  "filterE f xs = Inr ys \<Longrightarrow> (\<forall>x \<in> set xs. \<exists>b. f x = Inr b) \<and> ys = filter (\<lambda>x. f x = Inr True) xs"
proof (induction xs arbitrary: ys)
  case Nil
  then show ?case by simp
next
  case (Cons x xs)
  from Cons.prems obtain b zs where b: "f x = Inr b" and zs: "filterE f xs = Inr zs"
    and ys: "ys = (if b then x # zs else zs)"
    by (auto simp: bindE_Inr_iff)
  from Cons.IH [OF zs] b ys show ?case by auto
qed

lemma filterE_total:
  "(\<And>x. x \<in> set xs \<Longrightarrow> \<exists>b. f x = Inr b) \<Longrightarrow> \<exists>ys. filterE f xs = Inr ys"
proof (induction xs)
  case Nil
  show ?case by simp
next
  case (Cons x xs)
  from Cons.prems [of x] obtain b where "f x = Inr b" by auto
  moreover from Cons.IH Cons.prems obtain ys where "filterE f xs = Inr ys" by auto
  ultimately show ?case by simp
qed

lemma truthy_test_Inr:
  "bindE (getProp h p k) (\<lambda>r. Inr (P r)) = Inr b \<longleftrightarrow> (\<exists>x. getProp h p k = Inr x) \<and> b = P (lookup h p k)"
  by (auto simp: bindE_Inr_iff lookup_def)

lemma shallowCopy_Inr: "shallowCopy h v = Inr c \<Longrightarrow> c = NewObj (copy_props h Val [] v)"
  by (auto simp: shallowCopy_def bindE_Inr_iff dest: objectAssign_Inr)

lemma paramProps_keys:
  "paramProps h acc params = Inr props \<Longrightarrow>
   fst ` set props = fst ` set acc \<union> {k. \<exists>p \<in> set params. toString (lookup h p ''name'') = Inr k} \<and>
   (\<forall>p \<in> set params. \<exists>k. toString (lookup h p ''name'') = Inr k)"
proof (induction params arbitrary: acc)
  case Nil
  then show ?case by simp
next
  case (Cons p params)
  from Cons.prems obtain name k copy acc' where n: "getProp h p ''name'' = Inr name"
    and k: "toString name = Inr k" and "put acc k copy = Inr acc'"
    and r: "paramProps h acc' params = Inr props"
    by (auto simp: bindE_Inr_iff)
  then have acc': "acc' = set_prop acc k copy" by (simp add: put_Inr)
  from n have l: "lookup h p ''name'' = name" by (rule getProp_lookup)
  from Cons.IH [OF r] k l show ?case
    by (auto simp: acc' keys_set_prop)
qed

lemma createParamsSchema_Inr:
  assumes "createParamsSchema h params = Inr schema"
  shows "\<exists>props. schema =
            NewObj [(''type'', Val (Str ''object'')), (''properties'', NewObj props),
                    (''required'', NewArr (map Val (map (\<lambda>p. lookup h p ''name'')
                        (filter (\<lambda>p. truthy (lookup h p ''required'')) params))))] \<and>
           fst ` set props = {k. \<exists>p \<in> set params. toString (lookup h p ''name'') = Inr k} \<and>
           (\<forall>p \<in> set params. \<exists>k. toString (lookup h p ''name'') = Inr k)"
proof -
  from assms obtain props req names where
    props: "paramProps h [] params = Inr props" and
    req: "filterE (\<lambda>param. bindE (getProp h param ''required'') (\<lambda>r. Inr (truthy r))) params = Inr req" and
    names: "mapE (\<lambda>param. getProp h param ''name'') req = Inr names" and
    schema: "schema = NewObj [(''type'', Val (Str ''object'')), (''properties'', NewObj props),
                    (''required'', NewArr (map Val names))]"
    by (auto simp: createParamsSchema_def bindE_Inr_iff)
  from filterE_Inr [OF req]
  have req_eq: "req = filter (\<lambda>p. truthy (lookup h p ''required'')) params"
    by (auto simp: truthy_test_Inr intro!: filter_cong)
  from mapE_Inr [OF names] have "names = map (\<lambda>p. lookup h p ''name'') req"
    by (induction req names rule: list_all2_induct) (auto simp: lookup_def)
  with req_eq schema paramProps_keys [OF props] show ?thesis
    by simp
qed

lemma paramGroup_Inr:
  assumes "paramGroup h parameters loc = Inr grp"
  shows "\<exists>items props. elements h parameters = Inr items \<and>
           grp = (loc, paramsSchema props (requiredNames h (inLocation h loc items))) \<and>
           (props = [] \<longleftrightarrow> inLocation h loc items = []) \<and>
           fst ` set props =
             {k. \<exists>p \<in> set (inLocation h loc items). toString (lookup h p ''name'') = Inr k} \<and>
           (\<forall>v \<in> set (requiredNames h (inLocation h loc items)).
              \<exists>k. toString v = Inr k \<and> k \<in> fst ` set props)"
proof -
  from assms obtain items params schema where
    items: "elements h parameters = Inr items" and
    params: "filterE (\<lambda>param. bindE (getProp h param ''in'') (\<lambda>i. Inr (i = Str loc))) items = Inr params" and
    schema: "createParamsSchema h params = Inr schema" and
    grp: "grp = (loc, schema)"
    by (auto simp: paramGroup_def bindE_Inr_iff)
  from filterE_Inr [OF params] have p: "params = inLocation h loc items"
    by (auto simp: truthy_test_Inr inLocation_def intro!: filter_cong)
  from createParamsSchema_Inr [OF schema] obtain props where
    s: "schema = paramsSchema props (requiredNames h params)" and
    keys: "fst ` set props = {k. \<exists>p \<in> set params. toString (lookup h p ''name'') = Inr k}" and
    ok: "\<forall>p \<in> set params. \<exists>k. toString (lookup h p ''name'') = Inr k"
    by (auto simp: paramsSchema_def requiredNames_def)
  have e: "props = [] \<longleftrightarrow> params = []"
  proof
    assume "props = []"
    with keys have "{k. \<exists>p \<in> set params. toString (lookup h p ''name'') = Inr k} = {}" by simp
    with ok show "params = []" by (cases params) auto
  next
    assume "params = []"
    with keys show "props = []" by simp
  qed
  have r: "\<exists>k. toString v = Inr k \<and> k \<in> fst ` set props" if "v \<in> set (requiredNames h params)" for v
  proof -
    from that obtain q where "q \<in> set params" "v = lookup h q ''name''"
      by (auto simp: requiredNames_def)
    with ok keys show ?thesis by blast
  qed
  from items grp s e keys r show ?thesis unfolding p by blast
qed

lemma list_all2_right: "list_all2 R xs ys \<Longrightarrow> y \<in> set ys \<Longrightarrow> \<exists>x \<in> set xs. R x y"
  by (induction xs ys rule: list_all2_induct) auto

lemma list_all2_left: "list_all2 R xs ys \<Longrightarrow> x \<in> set xs \<Longrightarrow> \<exists>y \<in> set ys. R x y"
  by (induction xs ys rule: list_all2_induct) auto

lemma list_all2_tagged:
  "list_all2 R xs ys \<Longrightarrow> (\<And>x y. R x y \<Longrightarrow> fst y = x) \<Longrightarrow> map fst ys = xs"
  by (induction xs ys rule: list_all2_induct) auto

lemma nonempty_paramsSchema:
  "dkeys (dget (paramsSchema props names) ''properties'') = [] \<longleftrightarrow> props = []"
  by (simp add: paramsSchema_def dget_def dkeys_def)

lemma proto_not_group: "''__proto__'' \<notin> set PARAM_GROUPS"
  by (simp add: PARAM_GROUPS_def)

lemma createParamGroupSchemas_Inr:
  assumes "createParamGroupSchemas h parameters = Inr result"
  shows "\<exists>items groups. elements h parameters = Inr items \<and> result = NewObj groups \<and>
           group_schemas h items groups"
proof -
  let ?keep = "\<lambda>g. length (dkeys (dget (snd g) ''properties'')) \<noteq> 0"
  from assms obtain gs collected where
    gs: "mapE (paramGroup h parameters) PARAM_GROUPS = Inr gs" and
    collected: "assign [] (filter ?keep gs) = Inr collected" and
    result: "result = NewObj collected"
    by (auto simp: createParamGroupSchemas_def bindE_Inr_iff)
  from assign_Inr [OF collected] result
  have result: "result = NewObj (define_props [] (filter ?keep gs))" by simp
  from mapE_Inr [OF gs] have all: "list_all2 (\<lambda>loc g. paramGroup h parameters loc = Inr g) PARAM_GROUPS gs" .
  then have "paramGroup h parameters (hd PARAM_GROUPS) = Inr (hd gs)"
    by (cases gs) (auto simp: PARAM_GROUPS_def)
  from paramGroup_Inr [OF this] obtain items where items: "elements h parameters = Inr items"
    by blast
  have each: "\<exists>props. g = (loc, paramsSchema props (requiredNames h (inLocation h loc items))) \<and>
           (props = [] \<longleftrightarrow> inLocation h loc items = []) \<and>
           fst ` set props =
             {k. \<exists>p \<in> set (inLocation h loc items). toString (lookup h p ''name'') = Inr k} \<and>
           (\<forall>v \<in> set (requiredNames h (inLocation h loc items)).
              \<exists>k. toString v = Inr k \<and> k \<in> fst ` set props)"
    if "paramGroup h parameters loc = Inr g" for loc g
  proof -
    from paramGroup_Inr [OF that] obtain items' props where
      i: "elements h parameters = Inr items'" and
      r: "g = (loc, paramsSchema props (requiredNames h (inLocation h loc items')))"
         "props = [] \<longleftrightarrow> inLocation h loc items' = []"
         "fst ` set props =
             {k. \<exists>p \<in> set (inLocation h loc items'). toString (lookup h p ''name'') = Inr k}"
         "\<forall>v \<in> set (requiredNames h (inLocation h loc items')).
              \<exists>k. toString v = Inr k \<and> k \<in> fst ` set props"
      by blast
    from i items have "items' = items" by simp
    with r show ?thesis by blast
  qed
  have fsts: "map fst gs = PARAM_GROUPS"
  proof (rule list_all2_tagged [OF all])
    fix loc g
    assume "paramGroup h parameters loc = Inr g"
    from each [OF this] show "fst g = loc" by auto
  qed
  have member: "\<exists>loc \<in> set PARAM_GROUPS. paramGroup h parameters loc = Inr g" if "g \<in> set gs" for g
    using list_all2_right [OF all that] .
  have found: "\<exists>g \<in> set gs. paramGroup h parameters loc = Inr g" if "loc \<in> set PARAM_GROUPS" for loc
    using list_all2_left [OF all that] .
  let ?groups = "define_props [] (filter ?keep gs)"
  have set_groups: "fst ` set ?groups = fst ` set (filter ?keep gs)"
    by (simp add: keys_define_props)
  have "fst ` set gs = set PARAM_GROUPS"
    using fsts by (simp only: set_map [symmetric])
  moreover have "fst ` set (filter ?keep gs) \<subseteq> fst ` set gs"
    by (rule image_mono) simp
  ultimately have sub: "fst ` set ?groups \<subseteq> set PARAM_GROUPS"
    by (simp only: set_groups)
  have iff: "loc \<in> fst ` set ?groups \<longleftrightarrow> (\<exists>p \<in> set items. lookup h p ''in'' = Str loc)"
    if loc: "loc \<in> set PARAM_GROUPS" for loc
  proof
    assume "loc \<in> fst ` set ?groups"
    then obtain g where g: "g \<in> set gs" "?keep g" "fst g = loc"
      unfolding set_groups by auto
    from member [OF g(1)] obtain loc' where "paramGroup h parameters loc' = Inr g" by blast
    from each [OF this] g(2,3) have "inLocation h loc items \<noteq> []"
      by (auto simp: nonempty_paramsSchema)
    then show "\<exists>p \<in> set items. lookup h p ''in'' = Str loc"
      by (auto simp: inLocation_def filter_empty_conv)
  next
    assume "\<exists>p \<in> set items. lookup h p ''in'' = Str loc"
    then have ne: "inLocation h loc items \<noteq> []"
      by (auto simp: inLocation_def filter_empty_conv)
    from found [OF loc] obtain g where g: "g \<in> set gs" "paramGroup h parameters loc = Inr g" by blast
    from each [OF g(2)] ne have "?keep g" "fst g = loc"
      by (auto simp: nonempty_paramsSchema)
    with g(1) show "loc \<in> fst ` set ?groups"
      unfolding set_groups by force
  qed
  have schemas: "\<exists>props.
        snd g = paramsSchema props (requiredNames h (inLocation h (fst g) items)) \<and>
        fst ` set props =
          {k. \<exists>p \<in> set (inLocation h (fst g) items). toString (lookup h p ''name'') = Inr k} \<and>
        (\<forall>v \<in> set (requiredNames h (inLocation h (fst g) items)).
           \<exists>k. toString v = Inr k \<and> k \<in> fst ` set props)"
    if "g \<in> set ?groups" for g
  proof -
    have "distinct (map fst ?groups)"
      by (rule distinct_define_props) simp
    with that have "map_of ?groups (fst g) = Some (snd g)"
      by simp
    then have "map_of (rev (filter ?keep gs)) (fst g) = Some (snd g)"
      by (simp add: map_of_define_props)
    then have "g \<in> set gs"
      by (auto dest!: map_of_SomeD)
    from member [OF this] obtain loc where "paramGroup h parameters loc = Inr g" by blast
    from each [OF this] obtain props where
      g: "g = (loc, paramsSchema props (requiredNames h (inLocation h loc items)))" and
      r: "fst ` set props =
             {k. \<exists>p \<in> set (inLocation h loc items). toString (lookup h p ''name'') = Inr k}"
         "\<forall>v \<in> set (requiredNames h (inLocation h loc items)).
              \<exists>k. toString v = Inr k \<and> k \<in> fst ` set props"
      by blast
    from g have "fst g = loc" "snd g = paramsSchema props (requiredNames h (inLocation h loc items))"
      by simp_all
    with r show ?thesis by blast
  qed
  from sub iff schemas have "group_schemas h items ?groups"
    unfolding group_schemas_def by blast
  with items result show ?thesis by blast
qed

lemma renderable_toString: "renderable v \<Longrightarrow> \<exists>k. toString v = Inr k"
  by (cases v) (simp_all add: renderable_def)

lemma plain_param_reads:
  assumes "plain_param h p" and "plain_key k"
  shows "getProp h p k = Inr (lookup h p k)"
proof -
  from assms(1) have "has_fields p"
    by (cases p) (simp_all add: plain_param_def has_fields_def)
  from getProp_plain [OF this assms(2)] show ?thesis
    by (simp add: lookup_def)
qed

lemma plain_param_copy:
  assumes "plain_param h p"
  shows "shallowCopy h p = Inr (NewObj (copy_props h Val [] p))"
proof -
  from assms obtain a ps where "p = Ptr a" "cell_at h a = Some (Obj ps)" "map_of ps ''__proto__'' = None"
    by (cases p) (auto simp: plain_param_def split: option.splits cell.splits)
  then have "''__proto__'' \<notin> fst ` set (own_entries h p)"
    by (simp add: map_of_None_keys)
  then show ?thesis
    by (simp add: shallowCopy_def objectAssign_plain)
qed

lemma plain_param_key:
  assumes "plain_param h p"
  shows "\<exists>k. toString (lookup h p ''name'') = Inr k \<and> k \<noteq> ''__proto__''"
proof -
  from assms have "renderable (lookup h p ''name'')" "toString (lookup h p ''name'') \<noteq> Inr ''__proto__''"
    by (cases p; auto simp: plain_param_def split: option.splits cell.splits)+
  with renderable_toString [of "lookup h p ''name''"] show ?thesis by auto
qed

lemma paramProps_total:
  "\<forall>p \<in> set params. plain_param h p \<Longrightarrow> \<exists>props. paramProps h acc params = Inr props"
proof (induction params arbitrary: acc)
  case Nil
  show ?case by simp
next
  case (Cons p params)
  then have p: "plain_param h p" by simp
  from plain_param_key [OF p] obtain k where
    k: "toString (lookup h p ''name'') = Inr k" "k \<noteq> ''__proto__''" by blast
  from Cons.IH [of "set_prop acc k (NewObj (copy_props h Val [] p))"] Cons.prems
  obtain props where "paramProps h (set_prop acc k (NewObj (copy_props h Val [] p))) params = Inr props"
    by auto
  with k show ?case
    by (simp add: plain_param_reads [OF p] plain_param_copy [OF p] put_plain)
qed

lemma createParamsSchema_total:
  assumes "\<forall>p \<in> set params. plain_param h p"
  shows "\<exists>schema. createParamsSchema h params = Inr schema"
proof -
  from paramProps_total [OF assms] obtain props where "paramProps h [] params = Inr props" by blast
  moreover have "\<exists>req. filterE (\<lambda>param. bindE (getProp h param ''required'') (\<lambda>r. Inr (truthy r))) params = Inr req"
    by (rule filterE_total) (use assms in \<open>simp add: plain_param_reads\<close>)
  then obtain req where
    req: "filterE (\<lambda>param. bindE (getProp h param ''required'') (\<lambda>r. Inr (truthy r))) params = Inr req"
    by blast
  moreover from filterE_Inr [OF req] have "set req \<subseteq> set params" by auto
  then have "\<exists>names. mapE (\<lambda>param. getProp h param ''name'') req = Inr names"
    by (intro mapE_total) (use assms in \<open>auto simp: plain_param_reads\<close>)
  ultimately show ?thesis
    by (auto simp: createParamsSchema_def)
qed

lemma paramGroup_total:
  assumes "cell_at h a = Some (Arr items)" and "\<forall>p \<in> set items. plain_param h p"
  shows "\<exists>grp. paramGroup h (Ptr a) loc = Inr grp"
proof -
  from assms(1) have e: "elements h (Ptr a) = Inr items" by (simp add: elements_def)
  have "\<exists>params. filterE (\<lambda>param. bindE (getProp h param ''in'') (\<lambda>i. Inr (i = Str loc))) items = Inr params"
    by (rule filterE_total) (use assms(2) in \<open>simp add: plain_param_reads\<close>)
  then obtain params where
    params: "filterE (\<lambda>param. bindE (getProp h param ''in'') (\<lambda>i. Inr (i = Str loc))) items = Inr params"
    by blast
  from filterE_Inr [OF params] have "set params \<subseteq> set items" by auto
  with assms(2) have "\<forall>p \<in> set params. plain_param h p" by auto
  from createParamsSchema_total [OF this] obtain schema where "createParamsSchema h params = Inr schema"
    by blast
  with e params show ?thesis by (simp add: paramGroup_def)
qed

lemma createParamGroupSchemas_total:
  assumes "cell_at h a = Some (Arr items)" and "\<forall>p \<in> set items. plain_param h p"
  shows "\<exists>groups. createParamGroupSchemas h (Ptr a) = Inr (NewObj groups) \<and>
           group_schemas h items groups"
proof -
  let ?keep = "\<lambda>g. length (dkeys (dget (snd g) ''properties'')) \<noteq> 0"
  have "\<exists>gs. mapE (paramGroup h (Ptr a)) PARAM_GROUPS = Inr gs"
    by (rule mapE_total) (rule paramGroup_total [OF assms])
  then obtain gs where gs: "mapE (paramGroup h (Ptr a)) PARAM_GROUPS = Inr gs" by blast
  have "map fst gs = PARAM_GROUPS"
  proof (rule list_all2_tagged [OF mapE_Inr [OF gs]])
    fix loc g
    assume "paramGroup h (Ptr a) loc = Inr g"
    from paramGroup_Inr [OF this] show "fst g = loc" by auto
  qed
  then have "fst ` set gs = set PARAM_GROUPS"
    by (simp only: set_map [symmetric])
  moreover have "fst ` set (filter ?keep gs) \<subseteq> fst ` set gs"
    by (rule image_mono) simp
  ultimately have "''__proto__'' \<notin> fst ` set (filter ?keep gs)"
    using proto_not_group by blast
  from assign_plain [OF this, of "[]"] gs
  have run: "createParamGroupSchemas h (Ptr a) = Inr (NewObj (define_props [] (filter ?keep gs)))"
    by (simp add: createParamGroupSchemas_def)
  from createParamGroupSchemas_Inr [OF run] assms(1)
  have "group_schemas h items (define_props [] (filter ?keep gs))"
    by (simp add: elements_def)
  with run show ?thesis by blast
qed

section \<open>Properties of the response schemas\<close>

lemma createResponseHeadersSchema_Inr:
  assumes "createResponseHeadersSchema h headers = Inr hs"
  shows "hs = headersSchema h headers"
proof (cases "truthy headers")
  case False
  with assms show ?thesis
    by (simp add: createResponseHeadersSchema_def headersSchema_def)
next
  case True
  then have k: "objectKeys h headers = Inr (map fst (own_entries h headers))"
    by (auto simp: objectKeys_def)
  let ?f = "\<lambda>name. bindE (getProp h headers name) (\<lambda>header.
                 bindE (getProp h header ''required'') (\<lambda>r. Inr (truthy r)))"
  from assms True k obtain req where
    req: "filterE ?f (map fst (own_entries h headers)) = Inr req" and
    hs: "hs = NewObj [(''type'', Val (Str ''object'')), (''properties'', Val headers),
                  (''required'', NewArr (map (\<lambda>name. Val (Str name)) req))]"
    by (auto simp: createResponseHeadersSchema_def bindE_Inr_iff)
  have f: "?f name = Inr b \<Longrightarrow> b = truthy (lookup h (lookup h headers name) ''required'')" for name b
    by (auto simp: bindE_Inr_iff lookup_def)
  from filterE_Inr [OF req]
  have total: "\<forall>name \<in> set (map fst (own_entries h headers)). \<exists>b. ?f name = Inr b"
    and req_eq: "req = filter (\<lambda>name. ?f name = Inr True) (map fst (own_entries h headers))"
    by blast+
  have "(?f name = Inr True) = truthy (lookup h (lookup h headers name) ''required'')"
    if "name \<in> set (map fst (own_entries h headers))" for name
  proof -
    from total that obtain b where b: "?f name = Inr b" by blast
    from f [OF b] b show ?thesis by simp
  qed
  then have "filter (\<lambda>name. ?f name = Inr True) (map fst (own_entries h headers)) =
      filter (\<lambda>name. truthy (lookup h (lookup h headers name) ''required''))
                (map fst (own_entries h headers))"
    by (intro filter_cong refl) blast
  with req_eq have "req = filter (\<lambda>name. truthy (lookup h (lookup h headers name) ''required''))
                (map fst (own_entries h headers))"
    by simp
  with hs True show ?thesis
    by (simp add: headersSchema_def)
qed

lemma lookup_fields: "has_fields (lookup h v k) \<Longrightarrow> getProp h v k = Inr (lookup h v k)"
  by (cases "getProp h v k") (simp_all add: lookup_def has_fields_def)

lemma createResponseHeadersSchema_total:
  assumes "list_all (\<lambda>name. has_fields (lookup h headers name)) (map fst (own_entries h headers))"
  shows "createResponseHeadersSchema h headers = Inr (headersSchema h headers)"
proof (cases "truthy headers")
  case False
  then show ?thesis
    by (simp add: createResponseHeadersSchema_def headersSchema_def)
next
  case True
  then have k: "objectKeys h headers = Inr (map fst (own_entries h headers))"
    by (auto simp: objectKeys_def)
  let ?f = "\<lambda>name. bindE (getProp h headers name) (\<lambda>header.
                 bindE (getProp h header ''required'') (\<lambda>r. Inr (truthy r)))"
  have "\<exists>req. filterE ?f (map fst (own_entries h headers)) = Inr req"
  proof (rule filterE_total)
    fix name
    assume "name \<in> set (map fst (own_entries h headers))"
    with assms have f: "has_fields (lookup h headers name)"
      by (auto simp: list_all_iff)
    from lookup_fields [OF f] getProp_plain [OF f plain_key_fixed(11)]
    show "\<exists>b. ?f name = Inr b" by simp
  qed
  then obtain req where "filterE ?f (map fst (own_entries h headers)) = Inr req" by blast
  with True k have "\<exists>hs. createResponseHeadersSchema h headers = Inr hs"
    by (simp add: createResponseHeadersSchema_def)
  then obtain hs where hs: "createResponseHeadersSchema h headers = Inr hs" by blast
  from createResponseHeadersSchema_Inr [OF hs] hs show ?thesis by simp
qed

lemma responseSchema_total:
  assumes "plain_response h (lookup h responses key)"
  shows "responseSchema h responses key = Inr (key, responseEntry h responses key)"
proof -
  from assms have f: "has_fields (lookup h responses key)"
    and hs: "list_all (\<lambda>name. has_fields (lookup h (lookup h (lookup h responses key) ''headers'') name))
       (map fst (own_entries h (lookup h (lookup h responses key) ''headers'')))"
    by (simp_all add: plain_response_def)
  have s: "getProp h (lookup h responses key) ''schema'' = Inr (lookup h (lookup h responses key) ''schema'')"
    and d: "getProp h (lookup h responses key) ''headers'' = Inr (lookup h (lookup h responses key) ''headers'')"
    using getProp_plain [OF f plain_key_fixed(12)] getProp_plain [OF f plain_key_fixed(13)]
    by (simp_all add: lookup_def)
  from lookup_fields [OF f] s d createResponseHeadersSchema_total [OF hs]
  show ?thesis
    by (simp add: responseSchema_def responseEntry_def)
qed

lemma responseSchema_Inr:
  assumes "responseSchema h responses key = Inr e"
  shows "e = (key, responseEntry h responses key)"
proof -
  from assms obtain response schema headers hs where
    "getProp h responses key = Inr response" "getProp h response ''schema'' = Inr schema"
    "getProp h response ''headers'' = Inr headers" "createResponseHeadersSchema h headers = Inr hs"
    "e = (key, NewObj [(''id'', Val (Str key)), (''bodySchema'', Val schema), (''headersSchema'', hs)])"
    by (auto simp: responseSchema_def bindE_Inr_iff)
  then show ?thesis
    using createResponseHeadersSchema_Inr [of h headers hs]
    by (simp add: responseEntry_def lookup_def)
qed

text \<open>
  C6, as the code has it. For every response map other than \<^verbatim>\<open>null\<close> and
  \<^verbatim>\<open>undefined\<close> that declares no key \<^verbatim>\<open>__proto__\<close> and whose responses, and the
  headers they declare, are values with fields, \<^verbatim>\<open>createResponseSchemas\<close> returns a
  new object with exactly the declared response keys. Under each key it holds the
  object \<^verbatim>\<open>{id, bodySchema, headersSchema}\<close>: \<^verbatim>\<open>id\<close> is the key, \<^verbatim>\<open>bodySchema\<close> is the
  response's \<^verbatim>\<open>schema\<close>, and \<^verbatim>\<open>headersSchema\<close> is \<^verbatim>\<open>undefined\<close> when the response has
  no (or falsy) \<^verbatim>\<open>headers\<close>, and otherwise an object schema whose \<^verbatim>\<open>properties\<close> is
  the \<^verbatim>\<open>headers\<close> value itself and whose \<^verbatim>\<open>required\<close> lists the names of the headers
  with a truthy \<^verbatim>\<open>required\<close>.
\<close>

theorem createResponseSchemas_entries:
  assumes "responses \<noteq> Undefined" and "responses \<noteq> Null"
    and "''__proto__'' \<notin> fst ` set (own_entries h responses)"
    and "\<forall>key \<in> fst ` set (own_entries h responses). plain_response h (lookup h responses key)"
  shows "\<exists>entries. createResponseSchemas h responses = Inr (NewObj entries) \<and>
           fst ` set entries = fst ` set (own_entries h responses) \<and>
           (\<forall>key \<in> fst ` set (own_entries h responses).
              map_of entries key = Some (responseEntry h responses key))"
proof -
  define ids where "ids = map fst (own_entries h responses)"
  define es where "es = map (\<lambda>key. (key, responseEntry h responses key)) ids"
  have set_ids: "set ids = fst ` set (own_entries h responses)"
    by (simp add: ids_def)
  from assms(1,2) have ids: "objectKeys h responses = Inr ids"
    by (simp add: objectKeys_def ids_def)
  have each: "mapE (responseSchema h responses) ks = Inr (map (\<lambda>key. (key, responseEntry h responses key)) ks)"
    if "set ks \<subseteq> set ids" for ks
    using that
  proof (induction ks)
    case Nil
    show ?case by simp
  next
    case (Cons k ks)
    then have "k \<in> fst ` set (own_entries h responses)"
      by (simp add: set_ids)
    with assms(4) have "plain_response h (lookup h responses k)" by blast
    from responseSchema_total [OF this] Cons show ?case by simp
  qed
  then have mapped: "mapE (responseSchema h responses) ids = Inr es"
    by (simp add: es_def)
  have tag: "map fst es = ids"
    by (simp add: es_def comp_def)
  then have set_es: "fst ` set es = set ids"
    by (simp only: set_map [symmetric])
  with assms(3) set_ids have "''__proto__'' \<notin> fst ` set es" by simp
  from assign_plain [OF this, of "[]"] ids mapped
  have run: "createResponseSchemas h responses = Inr (NewObj (define_props [] es))"
    by (simp add: createResponseSchemas_def)
  have keys: "fst ` set (define_props [] es) = fst ` set (own_entries h responses)"
    by (simp add: keys_define_props set_es set_ids)
  have val: "map_of (define_props [] es) key = Some (responseEntry h responses key)"
    if "key \<in> fst ` set (own_entries h responses)" for key
  proof -
    from that keys have "map_of (define_props [] es) key \<noteq> None"
      by (simp add: map_of_None_keys)
    then obtain x where x: "map_of (rev es) key = Some x"
      by (auto simp: map_of_define_props)
    then have "(key, x) \<in> set es"
      by (auto dest!: map_of_SomeD)
    then have "x = responseEntry h responses key"
      by (auto simp: es_def)
    with x show ?thesis by (simp add: map_of_define_props)
  qed
  from run keys val show ?thesis by blast
qed

theorem createResponseSchemas_entries_witness:
  "createResponseSchemas
     [Obj [(''200'', Ptr 1)], Obj [(''headers'', Ptr 2)], Obj [(''X-Rate'', Ptr 3)],
      Obj [(''required'', Bool True)]] (Ptr 0) =
   Inr (NewObj [(''200'', NewObj [(''id'', Val (Str ''200'')), (''bodySchema'', Val Undefined),
      (''headersSchema'', NewObj [(''type'', Val (Str ''object'')), (''properties'', Val (Ptr 2)),
         (''required'', NewArr [Val (Str ''X-Rate'')])])])]) \<and>
   responseEntry
     [Obj [(''200'', Ptr 1)], Obj [(''headers'', Ptr 2)], Obj [(''X-Rate'', Ptr 3)],
      Obj [(''required'', Bool True)]] (Ptr 0) ''200'' =
   NewObj [(''id'', Val (Str ''200'')), (''bodySchema'', Val Undefined),
      (''headersSchema'', NewObj [(''type'', Val (Str ''object'')), (''properties'', Val (Ptr 2)),
         (''required'', NewArr [Val (Str ''X-Rate'')])])]"
proof -
  let ?h = "[Obj [(''200'', Ptr 1)], Obj [(''headers'', Ptr 2)], Obj [(''X-Rate'', Ptr 3)],
      Obj [(''required'', Bool True)]]"
  let ?e = "NewObj [(''id'', Val (Str ''200'')), (''bodySchema'', Val Undefined),
      (''headersSchema'', NewObj [(''type'', Val (Str ''object'')), (''properties'', Val (Ptr 2)),
         (''required'', NewArr [Val (Str ''X-Rate'')])])]"
  have own: "own_entries ?h (Ptr 0) = [(''200'', Ptr 1)]"
    by (simp add: cell_at_def)
  have plain: "plain_response ?h (lookup ?h (Ptr 0) ''200'')"
    by code_simp
  have run: "createResponseSchemas ?h (Ptr 0) = Inr (NewObj [(''200'', ?e)])"
    by code_simp
  have no_proto: "''__proto__'' \<notin> fst ` set (own_entries ?h (Ptr 0))"
    by (simp only: own) simp
  have all_plain: "\<forall>key \<in> fst ` set (own_entries ?h (Ptr 0)). plain_response ?h (lookup ?h (Ptr 0) key)"
    by (simp only: own) (simp only: plain list.set image_insert image_empty fst_conv ball_simps)
  have "Ptr 0 \<noteq> Undefined" "Ptr 0 \<noteq> Null" by simp_all
  from createResponseSchemas_entries [OF this no_proto all_plain]
  obtain entries where e: "createResponseSchemas ?h (Ptr 0) = Inr (NewObj entries)"
    and v: "\<forall>key \<in> fst ` set (own_entries ?h (Ptr 0)). map_of entries key = Some (responseEntry ?h (Ptr 0) key)"
    by blast
  from e run have "entries = [(''200'', ?e)]" by simp
  moreover from v have "map_of entries ''200'' = Some (responseEntry ?h (Ptr 0) ''200'')"
    by (simp only: own) simp
  ultimately have "map_of [(''200'', ?e)] ''200'' = Some (responseEntry ?h (Ptr 0) ''200'')"
    by simp
  then have "responseEntry ?h (Ptr 0) ''200'' = ?e" by simp
  with run show ?thesis by simp
qed

text \<open>
  The claim as the spec words it fails for every response: the object under a
  response key is not \<^verbatim>\<open>{bodySchema, headersSchema}\<close>, it also carries the key as
  \<^verbatim>\<open>id\<close>.
\<close>

theorem createResponseSchemas_id_counterexample:
  "createResponseSchemas [Obj [(''200'', Ptr 1)], Obj [(''schema'', Str ''s'')]] (Ptr 0) =
     Inr (NewObj [(''200'', NewObj [(''id'', Val (Str ''200'')), (''bodySchema'', Val (Str ''s'')),
                                    (''headersSchema'', Val Undefined)])]) \<and>
   createResponseSchemas [Obj [(''200'', Ptr 1)], Obj [(''schema'', Str ''s'')]] (Ptr 0) \<noteq>
     Inr (NewObj [(''200'', NewObj [(''bodySchema'', Val (Str ''s'')),
                                    (''headersSchema'', Val Undefined)])])"
  by code_simp

section \<open>Properties of createPathOperation\<close>




lemma lookup_Str: "lookup h v k = Str s \<Longrightarrow> getProp h v k = Inr (Str s)"
  by (cases "getProp h v k") (simp_all add: lookup_def)

lemma fullPath_strings:
  assumes "lookup h spec ''basePath'' = Str b" and "lookup h pathInfo ''path'' = Str p"
  shows "fullPath h spec pathInfo = Inr (normalize (''/'' @ b @ ''/'' @ p))"
  using lookup_Str [OF assms(1)] lookup_Str [OF assms(2)] by (simp add: fullPath_def)

lemma fullPath_Inr:
  assumes "fullPath h spec pathInfo = Inr full"
  shows "\<exists>b p. toString (lookup h spec ''basePath'') = Inr b \<and>
           toString (lookup h pathInfo ''path'') = Inr p \<and>
           full = normalize (''/'' @ b @ ''/'' @ p)"
  using assms by (auto simp: fullPath_def bindE_Inr_iff lookup_def)

lemma computedFields_Inr:
  assumes "computedFields h method pathInfo operationInfo spec = Inr computed"
  shows "\<exists>id path full consumes produces groups responses.
           fullPath h spec pathInfo = Inr full \<and>
           getOperationProperty h ''consumes'' operationInfo spec = Inr consumes \<and>
           getOperationProperty h ''produces'' operationInfo spec = Inr produces \<and>
           createParamGroupSchemas h (lookup h operationInfo ''parameters'') = Inr groups \<and>
           computed = [(''id'', Val id), (''path'', Val path), (''fullPath'', Val (Str full)),
                     (''consumes'', Val consumes), (''produces'', Val produces),
                     (''paramGroupSchemas'', groups), (''responseSchemas'', responses),
                     (''method'', Val (Str method))]"
  using assms by (auto simp: computedFields_def bindE_Inr_iff lookup_def)

lemma assemble_Inr:
  assumes "assemble h method pathInfo pathsXProps operationInfo spec = Inr (operation, h2)"
  shows "\<exists>computed. computedFields h2 method pathInfo operationInfo spec = Inr computed \<and>
           operation = NewObj (delete_prop ''operationId''
             (copy_props h2 Val (copy_props h2 Val computed pathsXProps) operationInfo))"
  using assms by (auto simp: assemble_def bindE_Inr_iff dest!: objectAssign_Inr)

lemma createPathOperation_Ok:
  assumes "createPathOperation n st method pathInfo pathsXProps spec = Ok operation st'"
  shows "\<exists>operationInfo st1.
           resolveRefs n st spec (lookup (store st) pathInfo method) = Ok operationInfo st1 \<and>
           assemble (store st1) method pathInfo pathsXProps operationInfo spec = Inr (operation, store st')"
  using assms
  by (auto simp: createPathOperation_def lookup_def split: sum.splits outcome.splits)

lemma descriptor_field:
  assumes "createPathOperation n st method pathInfo pathsXProps spec = Ok operation st'"
      and "resolveRefs n st spec (lookup (store st) pathInfo method) = Ok operationInfo st1"
      and "k \<noteq> ''operationId''"
  shows "\<exists>computed. computedFields (store st') method pathInfo operationInfo spec = Inr computed \<and>
     dget operation k =
       (if k \<in> fst ` set (own_entries (store st') operationInfo)
        then Val (lookup (store st') operationInfo k)
        else if k \<in> fst ` set (own_entries (store st') pathsXProps)
        then Val (lookup (store st') pathsXProps k)
        else (case map_of computed k of Some x \<Rightarrow> x | None \<Rightarrow> Val Undefined))"
proof -
  from createPathOperation_Ok [OF assms(1)] assms(2)
  have "assemble (store st1) method pathInfo pathsXProps operationInfo spec = Inr (operation, store st')"
    by auto
  from assemble_Inr [OF this] obtain computed where
    f: "computedFields (store st') method pathInfo operationInfo spec = Inr computed" and
    op: "operation = NewObj (delete_prop ''operationId''
             (copy_props (store st') Val (copy_props (store st') Val computed pathsXProps) operationInfo))"
    by blast
  from assms(3) have "dget operation k =
       (if k \<in> fst ` set (own_entries (store st') operationInfo)
        then Val (lookup (store st') operationInfo k)
        else if k \<in> fst ` set (own_entries (store st') pathsXProps)
        then Val (lookup (store st') pathsXProps k)
        else (case map_of computed k of Some x \<Rightarrow> x | None \<Rightarrow> Val Undefined))"
    unfolding op dget_def
    by (simp add: map_of_delete_prop map_of_copy_props)
  with f show ?thesis by blast
qed





text \<open>
  C8, as the code has it. The path the descriptor is given as \<^verbatim>\<open>fullPath\<close> is the
  normalization of \<^verbatim>\<open>/\<close>, the document's \<^verbatim>\<open>basePath\<close>, \<^verbatim>\<open>/\<close> and the path
  template, for every string \<^verbatim>\<open>basePath\<close> and template. In the descriptor
  \<^verbatim>\<open>createPathOperation\<close> returns, \<^verbatim>\<open>fullPath\<close> is that path only when neither the
  resolved operation node nor the path's extension fields declare a \<^verbatim>\<open>fullPath\<close>
  of their own: a later argument of \<^verbatim>\<open>Object.assign\<close> overwrites it. The
  normalized path is \<^verbatim>\<open>/\<close> followed by segments joined by single slashes, none of
  them empty, \<^verbatim>\<open>.\<close> or \<^verbatim>\<open>..\<close>, and by a final slash only when the input ended in
  one.
\<close>

theorem createPathOperation_fullPath:
  "(lookup h spec' ''basePath'' = Str b' \<and> lookup h pathInfo' ''path'' = Str p' \<longrightarrow>
      fullPath h spec' pathInfo' = Inr (normalize (''/'' @ b' @ ''/'' @ p'))) \<and>
   (createPathOperation n st method pathInfo pathsXProps spec = Ok operation st' \<and>
    resolveRefs n st spec (lookup (store st) pathInfo method) = Ok operationInfo st1 \<and>
    ''fullPath'' \<notin> fst ` set (own_entries (store st') operationInfo) \<and>
    ''fullPath'' \<notin> fst ` set (own_entries (store st') pathsXProps) \<longrightarrow>
      (\<exists>b p segs.
           toString (lookup (store st') spec ''basePath'') = Inr b \<and>
           toString (lookup (store st') pathInfo ''path'') = Inr p \<and>
           fullPath (store st') spec pathInfo = Inr (normalize (''/'' @ b @ ''/'' @ p)) \<and>
           dget operation ''fullPath'' = Val (Str (normalize (''/'' @ b @ ''/'' @ p))) \<and>
           normalize (''/'' @ b @ ''/'' @ p) =
             ''/'' @ join segs @
             (if segs \<noteq> [] \<and> last (''/'' @ b @ ''/'' @ p) = CHR ''/'' then ''/'' else []) \<and>
           (\<forall>s \<in> set segs. plain_segment s)))"
proof (intro conjI impI)
  assume "lookup h spec' ''basePath'' = Str b' \<and> lookup h pathInfo' ''path'' = Str p'"
  then show "fullPath h spec' pathInfo' = Inr (normalize (''/'' @ b' @ ''/'' @ p'))"
    by (simp add: fullPath_strings)
next
  assume a: "createPathOperation n st method pathInfo pathsXProps spec = Ok operation st' \<and>
    resolveRefs n st spec (lookup (store st) pathInfo method) = Ok operationInfo st1 \<and>
    ''fullPath'' \<notin> fst ` set (own_entries (store st') operationInfo) \<and>
    ''fullPath'' \<notin> fst ` set (own_entries (store st') pathsXProps)"
  then have run: "createPathOperation n st method pathInfo pathsXProps spec = Ok operation st'"
    and res: "resolveRefs n st spec (lookup (store st) pathInfo method) = Ok operationInfo st1"
    by simp_all
  from descriptor_field [OF run res, of "''fullPath''"] a
  obtain computed where
    f: "computedFields (store st') method pathInfo operationInfo spec = Inr computed" and
    d: "dget operation ''fullPath'' = (case map_of computed ''fullPath'' of Some x \<Rightarrow> x | None \<Rightarrow> Val Undefined)"
    by auto
  from computedFields_Inr [OF f] obtain full where
    full: "fullPath (store st') spec pathInfo = Inr full" and
    m: "map_of computed ''fullPath'' = Some (Val (Str full))"
    by auto
  from fullPath_Inr [OF full] obtain b p where
    bp: "toString (lookup (store st') spec ''basePath'') = Inr b"
        "toString (lookup (store st') pathInfo ''path'') = Inr p"
        "full = normalize (''/'' @ b @ ''/'' @ p)"
    by blast
  from normalize_absolute [of "''/'' @ b @ ''/'' @ p"] obtain segs where
    "normalize (''/'' @ b @ ''/'' @ p) =
       ''/'' @ join segs @ (if segs \<noteq> [] \<and> last (''/'' @ b @ ''/'' @ p) = CHR ''/'' then ''/'' else [])"
    "\<forall>s \<in> set segs. plain_segment s"
    by auto
  with d m bp full show "\<exists>b p segs.
           toString (lookup (store st') spec ''basePath'') = Inr b \<and>
           toString (lookup (store st') pathInfo ''path'') = Inr p \<and>
           fullPath (store st') spec pathInfo = Inr (normalize (''/'' @ b @ ''/'' @ p)) \<and>
           dget operation ''fullPath'' = Val (Str (normalize (''/'' @ b @ ''/'' @ p))) \<and>
           normalize (''/'' @ b @ ''/'' @ p) =
             ''/'' @ join segs @
             (if segs \<noteq> [] \<and> last (''/'' @ b @ ''/'' @ p) = CHR ''/'' then ''/'' else []) \<and>
           (\<forall>s \<in> set segs. plain_segment s)"
    by auto
qed

theorem createPathOperation_fullPath_witness:
  "createPathOperation 2
     \<lparr>store = [Obj [(''basePath'', Str ''/api''), (''consumes'', Ptr 1)], Arr [Str ''application/json''],
      Obj [(''operationId'', Str ''getUser'')],
      Obj [(''path'', Str ''/users/{id}''), (''get'', Ptr 2)], Obj []], dataCache = {}\<rparr> ''get'' (Ptr 3) (Ptr 4) (Ptr 0) =
   Ok (NewObj [(''id'', Val (Str ''getUser'')), (''path'', Val (Str ''/users/{id}'')),
      (''fullPath'', Val (Str ''/api/users/{id}'')), (''consumes'', Val (Ptr 1)),
      (''produces'', Val Undefined), (''paramGroupSchemas'', NewObj []),
      (''responseSchemas'', NewObj []), (''method'', Val (Str ''get'')),
      (''parameters'', Val (Ptr 5)), (''responses'', Val (Ptr 6))])
     \<lparr>store = [Obj [(''basePath'', Str ''/api''), (''consumes'', Ptr 1)], Arr [Str ''application/json''],
      Obj [(''operationId'', Str ''getUser''), (''parameters'', Ptr 5), (''responses'', Ptr 6)],
      Obj [(''path'', Str ''/users/{id}''), (''get'', Ptr 2)], Obj [], Arr [], Obj []], dataCache = {2}\<rparr> \<and>
   fullPath
     [Obj [(''basePath'', Str ''/api''), (''consumes'', Ptr 1)], Arr [Str ''application/json''],
      Obj [(''operationId'', Str ''getUser'')],
      Obj [(''path'', Str ''/users/{id}''), (''get'', Ptr 2)], Obj []] (Ptr 0) (Ptr 3) =
     Inr ''/api/users/{id}''"
proof -
  let ?h = "[Obj [(''basePath'', Str ''/api''), (''consumes'', Ptr 1)], Arr [Str ''application/json''],
      Obj [(''operationId'', Str ''getUser'')],
      Obj [(''path'', Str ''/users/{id}''), (''get'', Ptr 2)], Obj []]"
  let ?st = "\<lparr>store = [Obj [(''basePath'', Str ''/api''), (''consumes'', Ptr 1)], Arr [Str ''application/json''],
      Obj [(''operationId'', Str ''getUser'')],
      Obj [(''path'', Str ''/users/{id}''), (''get'', Ptr 2)], Obj []], dataCache = {}\<rparr>"
  let ?st' = "\<lparr>store = [Obj [(''basePath'', Str ''/api''), (''consumes'', Ptr 1)], Arr [Str ''application/json''],
      Obj [(''operationId'', Str ''getUser''), (''parameters'', Ptr 5), (''responses'', Ptr 6)],
      Obj [(''path'', Str ''/users/{id}''), (''get'', Ptr 2)], Obj [], Arr [], Obj []], dataCache = {2}\<rparr>"
  let ?op = "NewObj [(''id'', Val (Str ''getUser'')), (''path'', Val (Str ''/users/{id}'')),
      (''fullPath'', Val (Str ''/api/users/{id}'')), (''consumes'', Val (Ptr 1)),
      (''produces'', Val Undefined), (''paramGroupSchemas'', NewObj []),
      (''responseSchemas'', NewObj []), (''method'', Val (Str ''get'')),
      (''parameters'', Val (Ptr 5)), (''responses'', Val (Ptr 6))]"
  have run: "createPathOperation 2 ?st ''get'' (Ptr 3) (Ptr 4) (Ptr 0) = Ok ?op ?st'"
    by code_simp
  have res: "resolveRefs 2 ?st (Ptr 0) (lookup (store ?st) (Ptr 3) ''get'') =
      Ok (Ptr 2) \<lparr>store = [Obj [(''basePath'', Str ''/api''), (''consumes'', Ptr 1)], Arr [Str ''application/json''],
      Obj [(''operationId'', Str ''getUser'')],
      Obj [(''path'', Str ''/users/{id}''), (''get'', Ptr 2)], Obj []], dataCache = {2}\<rparr>"
    by code_simp
  have k1: "''fullPath'' \<notin> fst ` set (own_entries (store ?st') (Ptr 2))"
    by (simp add: cell_at_def)
  have k2: "''fullPath'' \<notin> fst ` set (own_entries (store ?st') (Ptr 4))"
    by (simp add: cell_at_def)
  have b: "lookup ?h (Ptr 0) ''basePath'' = Str ''/api''"
    by code_simp
  have p: "lookup ?h (Ptr 3) ''path'' = Str ''/users/{id}''"
    by code_simp
  have n: "normalize (''/'' @ ''/api'' @ ''/'' @ ''/users/{id}'') = ''/api/users/{id}''"
    by code_simp
  note t = createPathOperation_fullPath [of ?h "Ptr 0" "''/api''" "Ptr 3" "''/users/{id}''" 2 ?st
      "''get''" "Ptr 3" "Ptr 4" "Ptr 0" ?op ?st' "Ptr 2"]
  from t [THEN conjunct1, rule_format, OF conjI [OF b p]]
  have full: "fullPath ?h (Ptr 0) (Ptr 3) = Inr ''/api/users/{id}''"
    by (simp only: n)
  from t [THEN conjunct2, rule_format, OF conjI [OF run conjI [OF res conjI [OF k1 k2]]]]
  obtain b p where
    "toString (lookup (store ?st') (Ptr 0) ''basePath'') = Inr b"
    "toString (lookup (store ?st') (Ptr 3) ''path'') = Inr p"
    "dget ?op ''fullPath'' = Val (Str (normalize (''/'' @ b @ ''/'' @ p)))"
    by blast
  with run full show ?thesis by simp
qed

text \<open>
  The claim as the spec words it fails for an operation node that declares a
  \<^verbatim>\<open>fullPath\<close> of its own: \<^verbatim>\<open>Object.assign\<close> copies the node's fields last, so the
  descriptor holds the node's value and not the normalized path \<^verbatim>\<open>/api/users/{id}\<close>.
\<close>

theorem createPathOperation_own_fullPath_counterexample:
  "createPathOperation 2
     \<lparr>store = [Obj [(''basePath'', Str ''/api'')],
      Obj [(''operationId'', Str ''getUser''), (''fullPath'', Str ''elsewhere'')],
      Obj [(''path'', Str ''/users/{id}''), (''get'', Ptr 1)], Obj []], dataCache = {}\<rparr>
     ''get'' (Ptr 2) (Ptr 3) (Ptr 0) =
   Ok (NewObj [(''id'', Val (Str ''getUser'')), (''path'', Val (Str ''/users/{id}'')),
      (''fullPath'', Val (Str ''elsewhere'')), (''consumes'', Val Undefined),
      (''produces'', Val Undefined), (''paramGroupSchemas'', NewObj []),
      (''responseSchemas'', NewObj []), (''method'', Val (Str ''get'')),
      (''parameters'', Val (Ptr 4)), (''responses'', Val (Ptr 5))])
     \<lparr>store = [Obj [(''basePath'', Str ''/api'')],
      Obj [(''operationId'', Str ''getUser''), (''fullPath'', Str ''elsewhere''),
           (''parameters'', Ptr 4), (''responses'', Ptr 5)],
      Obj [(''path'', Str ''/users/{id}''), (''get'', Ptr 1)], Obj [], Arr [], Obj []], dataCache = {1}\<rparr> \<and>
   normalize (''/'' @ ''/api'' @ ''/'' @ ''/users/{id}'') = ''/api/users/{id}''"
  by code_simp

text \<open>
  C7, as the code has it. For every array of parameters that are objects without
  a key \<^verbatim>\<open>__proto__\<close> and with a name other than \<^verbatim>\<open>__proto__\<close>,
  \<^verbatim>\<open>createParamGroupSchemas\<close> returns an object whose keys are among the five
  locations, with a location as a key exactly when some parameter has it, and with
  every name in a \<^verbatim>\<open>required\<close> array a key of the \<^verbatim>\<open>properties\<close> beside it. In the
  descriptor \<^verbatim>\<open>createPathOperation\<close> returns, \<^verbatim>\<open>paramGroupSchemas\<close> is that object
  for the parameters of the resolved operation node only when neither the node nor
  the path's extension fields declare a \<^verbatim>\<open>paramGroupSchemas\<close> of their own.
\<close>

theorem createParamGroupSchemas_invariant:
  "(cell_at h a = Some (Arr items') \<and> (\<forall>p \<in> set items'. plain_param h p) \<longrightarrow>
      (\<exists>groups. createParamGroupSchemas h (Ptr a) = Inr (NewObj groups) \<and>
         group_schemas h items' groups)) \<and>
   (createPathOperation n st method pathInfo pathsXProps spec = Ok operation st' \<and>
    resolveRefs n st spec (lookup (store st) pathInfo method) = Ok operationInfo st1 \<and>
    ''paramGroupSchemas'' \<notin> fst ` set (own_entries (store st') operationInfo) \<and>
    ''paramGroupSchemas'' \<notin> fst ` set (own_entries (store st') pathsXProps) \<longrightarrow>
      (\<exists>items groups.
         elements (store st') (lookup (store st') operationInfo ''parameters'') = Inr items \<and>
         createParamGroupSchemas (store st') (lookup (store st') operationInfo ''parameters'') =
           Inr (NewObj groups) \<and>
         dget operation ''paramGroupSchemas'' = NewObj groups \<and>
         group_schemas (store st') items groups))"
proof (intro conjI impI)
  assume "cell_at h a = Some (Arr items') \<and> (\<forall>p \<in> set items'. plain_param h p)"
  then show "\<exists>groups. createParamGroupSchemas h (Ptr a) = Inr (NewObj groups) \<and>
         group_schemas h items' groups"
    using createParamGroupSchemas_total [of h a items'] by blast
next
  assume a: "createPathOperation n st method pathInfo pathsXProps spec = Ok operation st' \<and>
    resolveRefs n st spec (lookup (store st) pathInfo method) = Ok operationInfo st1 \<and>
    ''paramGroupSchemas'' \<notin> fst ` set (own_entries (store st') operationInfo) \<and>
    ''paramGroupSchemas'' \<notin> fst ` set (own_entries (store st') pathsXProps)"
  then have run: "createPathOperation n st method pathInfo pathsXProps spec = Ok operation st'"
    and res: "resolveRefs n st spec (lookup (store st) pathInfo method) = Ok operationInfo st1"
    by simp_all
  from descriptor_field [OF run res, of "''paramGroupSchemas''"] a
  obtain computed where
    f: "computedFields (store st') method pathInfo operationInfo spec = Inr computed" and
    d: "dget operation ''paramGroupSchemas'' =
          (case map_of computed ''paramGroupSchemas'' of Some x \<Rightarrow> x | None \<Rightarrow> Val Undefined)"
    by auto
  from computedFields_Inr [OF f] obtain result where
    g: "createParamGroupSchemas (store st') (lookup (store st') operationInfo ''parameters'') = Inr result" and
    m: "map_of computed ''paramGroupSchemas'' = Some result"
    by auto
  from createParamGroupSchemas_Inr [OF g] obtain items groups where
    "elements (store st') (lookup (store st') operationInfo ''parameters'') = Inr items"
    "result = NewObj groups" "group_schemas (store st') items groups"
    by blast
  with d m g show "\<exists>items groups.
         elements (store st') (lookup (store st') operationInfo ''parameters'') = Inr items \<and>
         createParamGroupSchemas (store st') (lookup (store st') operationInfo ''parameters'') =
           Inr (NewObj groups) \<and>
         dget operation ''paramGroupSchemas'' = NewObj groups \<and>
         group_schemas (store st') items groups"
    by auto
qed

theorem createParamGroupSchemas_invariant_witness:
  "createParamGroupSchemas
     [Arr [Ptr 1, Ptr 2],
      Obj [(''name'', Str ''id''), (''in'', Str ''path''), (''required'', Bool True)],
      Obj [(''name'', Str ''q''), (''in'', Str ''query'')]] (Ptr 0) =
   Inr (NewObj
     [(''path'', NewObj [(''type'', Val (Str ''object'')),
         (''properties'', NewObj [(''id'', NewObj [(''name'', Val (Str ''id'')),
             (''in'', Val (Str ''path'')), (''required'', Val (Bool True))])]),
         (''required'', NewArr [Val (Str ''id'')])]),
      (''query'', NewObj [(''type'', Val (Str ''object'')),
         (''properties'', NewObj [(''q'', NewObj [(''name'', Val (Str ''q'')),
             (''in'', Val (Str ''query''))])]),
         (''required'', NewArr [])])]) \<and>
   {''path'', ''query''} \<subseteq> set PARAM_GROUPS \<and>
   createPathOperation 5
     \<lparr>store = [Obj [(''basePath'', Str ''/api'')],
      Obj [(''operationId'', Str ''getUser''), (''parameters'', Ptr 2)],
      Arr [Ptr 3], Obj [(''name'', Str ''id''), (''in'', Str ''path''), (''required'', Bool True)],
      Obj [(''path'', Str ''/users/{id}''), (''get'', Ptr 1)], Obj []], dataCache = {}\<rparr>
     ''get'' (Ptr 4) (Ptr 5) (Ptr 0) =
   Ok (NewObj [(''id'', Val (Str ''getUser'')), (''path'', Val (Str ''/users/{id}'')),
      (''fullPath'', Val (Str ''/api/users/{id}'')), (''consumes'', Val Undefined),
      (''produces'', Val Undefined),
      (''paramGroupSchemas'', NewObj [(''path'', NewObj [(''type'', Val (Str ''object'')),
         (''properties'', NewObj [(''id'', NewObj [(''name'', Val (Str ''id'')),
             (''in'', Val (Str ''path'')), (''required'', Val (Bool True))])]),
         (''required'', NewArr [Val (Str ''id'')])])]),
      (''responseSchemas'', NewObj []), (''method'', Val (Str ''get'')),
      (''parameters'', Val (Ptr 6)), (''responses'', Val (Ptr 7))])
     \<lparr>store = [Obj [(''basePath'', Str ''/api'')],
      Obj [(''operationId'', Str ''getUser''), (''parameters'', Ptr 6), (''responses'', Ptr 7)],
      Arr [Ptr 3], Obj [(''name'', Str ''id''), (''in'', Str ''path''), (''required'', Bool True)],
      Obj [(''path'', Str ''/users/{id}''), (''get'', Ptr 1)], Obj [], Arr [Ptr 3], Obj []],
      dataCache = {1, 3}\<rparr>"
proof -
  let ?h = "[Arr [Ptr 1, Ptr 2],
      Obj [(''name'', Str ''id''), (''in'', Str ''path''), (''required'', Bool True)],
      Obj [(''name'', Str ''q''), (''in'', Str ''query'')]]"
  let ?groups = "[(''path'', NewObj [(''type'', Val (Str ''object'')),
         (''properties'', NewObj [(''id'', NewObj [(''name'', Val (Str ''id'')),
             (''in'', Val (Str ''path'')), (''required'', Val (Bool True))])]),
         (''required'', NewArr [Val (Str ''id'')])]),
      (''query'', NewObj [(''type'', Val (Str ''object'')),
         (''properties'', NewObj [(''q'', NewObj [(''name'', Val (Str ''q'')),
             (''in'', Val (Str ''query''))])]),
         (''required'', NewArr [])])]"
  let ?st = "\<lparr>store = [Obj [(''basePath'', Str ''/api'')],
      Obj [(''operationId'', Str ''getUser''), (''parameters'', Ptr 2)],
      Arr [Ptr 3], Obj [(''name'', Str ''id''), (''in'', Str ''path''), (''required'', Bool True)],
      Obj [(''path'', Str ''/users/{id}''), (''get'', Ptr 1)], Obj []], dataCache = {}\<rparr>"
  let ?st' = "\<lparr>store = [Obj [(''basePath'', Str ''/api'')],
      Obj [(''operationId'', Str ''getUser''), (''parameters'', Ptr 6), (''responses'', Ptr 7)],
      Arr [Ptr 3], Obj [(''name'', Str ''id''), (''in'', Str ''path''), (''required'', Bool True)],
      Obj [(''path'', Str ''/users/{id}''), (''get'', Ptr 1)], Obj [], Arr [Ptr 3], Obj []],
      dataCache = {1, 3}\<rparr>"
  let ?pg = "[(''path'', NewObj [(''type'', Val (Str ''object'')),
         (''properties'', NewObj [(''id'', NewObj [(''name'', Val (Str ''id'')),
             (''in'', Val (Str ''path'')), (''required'', Val (Bool True))])]),
         (''required'', NewArr [Val (Str ''id'')])])]"
  let ?op = "NewObj [(''id'', Val (Str ''getUser'')), (''path'', Val (Str ''/users/{id}'')),
      (''fullPath'', Val (Str ''/api/users/{id}'')), (''consumes'', Val Undefined),
      (''produces'', Val Undefined), (''paramGroupSchemas'', NewObj ?pg),
      (''responseSchemas'', NewObj []), (''method'', Val (Str ''get'')),
      (''parameters'', Val (Ptr 6)), (''responses'', Val (Ptr 7))]"
  have c: "cell_at ?h 0 = Some (Arr [Ptr 1, Ptr 2])"
    by (simp add: cell_at_def)
  have p1: "plain_param ?h (Ptr 1)" by code_simp
  have p2: "plain_param ?h (Ptr 2)" by code_simp
  have pl: "\<forall>p \<in> set [Ptr 1, Ptr 2]. plain_param ?h p"
    using p1 p2 by simp
  have run: "createPathOperation 5 ?st ''get'' (Ptr 4) (Ptr 5) (Ptr 0) = Ok ?op ?st'"
    by code_simp
  have res: "resolveRefs 5 ?st (Ptr 0) (lookup (store ?st) (Ptr 4) ''get'') =
      Ok (Ptr 1) \<lparr>store = [Obj [(''basePath'', Str ''/api'')],
      Obj [(''operationId'', Str ''getUser''), (''parameters'', Ptr 6)],
      Arr [Ptr 3], Obj [(''name'', Str ''id''), (''in'', Str ''path''), (''required'', Bool True)],
      Obj [(''path'', Str ''/users/{id}''), (''get'', Ptr 1)], Obj [], Arr [Ptr 3]],
      dataCache = {1, 3}\<rparr>"
    by code_simp
  have k1: "''paramGroupSchemas'' \<notin> fst ` set (own_entries (store ?st') (Ptr 1))"
    by (simp add: cell_at_def)
  have k2: "''paramGroupSchemas'' \<notin> fst ` set (own_entries (store ?st') (Ptr 5))"
    by (simp add: cell_at_def)
  have direct: "createParamGroupSchemas ?h (Ptr 0) = Inr (NewObj ?groups)"
    by code_simp
  note t = createParamGroupSchemas_invariant [of ?h 0 "[Ptr 1, Ptr 2]" 5 ?st
      "''get''" "Ptr 4" "Ptr 5" "Ptr 0" ?op ?st' "Ptr 1"]
  from t [THEN conjunct1, rule_format, OF conjI [OF c pl]]
  obtain groups where g: "createParamGroupSchemas ?h (Ptr 0) = Inr (NewObj groups)"
    and gs: "group_schemas ?h [Ptr 1, Ptr 2] groups"
    by blast
  from g direct have "groups = ?groups" by simp
  with gs have "fst ` set ?groups \<subseteq> set PARAM_GROUPS"
    by (simp only: group_schemas_def)
  then have sub: "{''path'', ''query''} \<subseteq> set PARAM_GROUPS" by simp
  from t [THEN conjunct2, rule_format, OF conjI [OF run conjI [OF res conjI [OF k1 k2]]]]
  obtain groups' where "dget ?op ''paramGroupSchemas'' = NewObj groups'"
    by blast
  with direct sub run show ?thesis by simp
qed

text \<open>
  The claim as the spec words it fails for an operation node that declares a
  \<^verbatim>\<open>paramGroupSchemas\<close> of its own: \<^verbatim>\<open>Object.assign\<close> copies the node's fields
  last, so the descriptor holds the node's object at address 2, whose key
  \<^verbatim>\<open>cookie\<close> is none of the five locations, although the only parameter is in
  \<^verbatim>\<open>path\<close>.
\<close>

theorem createPathOperation_own_paramGroupSchemas_counterexample:
  "createPathOperation 5
     \<lparr>store = [Obj [(''basePath'', Str ''/api'')],
      Obj [(''operationId'', Str ''getUser''), (''paramGroupSchemas'', Ptr 2), (''parameters'', Ptr 3)],
      Obj [(''cookie'', Num 1)],
      Arr [Ptr 4], Obj [(''name'', Str ''id''), (''in'', Str ''path'')],
      Obj [(''path'', Str ''/users/{id}''), (''get'', Ptr 1)], Obj []], dataCache = {}\<rparr>
     ''get'' (Ptr 5) (Ptr 6) (Ptr 0) =
   Ok (NewObj [(''id'', Val (Str ''getUser'')), (''path'', Val (Str ''/users/{id}'')),
      (''fullPath'', Val (Str ''/api/users/{id}'')), (''consumes'', Val Undefined),
      (''produces'', Val Undefined), (''paramGroupSchemas'', Val (Ptr 2)),
      (''responseSchemas'', NewObj []), (''method'', Val (Str ''get'')),
      (''parameters'', Val (Ptr 7)), (''responses'', Val (Ptr 8))])
     \<lparr>store = [Obj [(''basePath'', Str ''/api'')],
      Obj [(''operationId'', Str ''getUser''), (''paramGroupSchemas'', Ptr 2), (''parameters'', Ptr 7),
           (''responses'', Ptr 8)],
      Obj [(''cookie'', Num 1)],
      Arr [Ptr 4], Obj [(''name'', Str ''id''), (''in'', Str ''path'')],
      Obj [(''path'', Str ''/users/{id}''), (''get'', Ptr 1)], Obj [], Arr [Ptr 4], Obj []],
      dataCache = {1, 2, 4}\<rparr> \<and>
   ''cookie'' \<notin> set PARAM_GROUPS"
  by code_simp

end
